theory Spec2Isabelle
  imports Main
begin

section \<open>Strings\<close>

text \<open>
  JavaScript strings are modelled as lists of 8-bit code units. The character classes are
  those of the regular expressions in the source: \<open>\w\<close> is \<open>[A-Za-z0-9_]\<close>, \<open>\s\<close> is
  the white space of the range (tab, line feed, vertical tab, form feed, carriage return,
  space, no-break space). \<open>toLowerCase\<close> maps \<open>A\<close>..\<open>Z\<close> to \<open>a\<close>..\<open>z\<close>.
\<close>

definition isUpper :: "char \<Rightarrow> bool" where
  "isUpper c = (let n = (of_char c :: nat) in 65 \<le> n \<and> n \<le> 90)"

definition isWordChar :: "char \<Rightarrow> bool" where
  "isWordChar c =
     (let n = (of_char c :: nat)
      in (48 \<le> n \<and> n \<le> 57) \<or> (65 \<le> n \<and> n \<le> 90) \<or> (97 \<le> n \<and> n \<le> 122) \<or> n = 95)"

definition isSpace :: "char \<Rightarrow> bool" where
  "isSpace c =
     (let n = (of_char c :: nat) in (9 \<le> n \<and> n \<le> 13) \<or> n = 32 \<or> n = 160)"

definition lowerChar :: "char \<Rightarrow> char" where
  "lowerChar c = (if isUpper c then char_of ((of_char c :: nat) + 32) else c)"

definition toLowerCase :: "string \<Rightarrow> string" where
  "toLowerCase s = map lowerChar s"

definition trim :: "string \<Rightarrow> string" where
  "trim s = rev (dropWhile isSpace (rev (dropWhile isSpace s)))"

section \<open>The slug of a category (models/Category.js, pre-save middleware)\<close>

text \<open>\<open>.replace(/[^\w\s-]/g, '')\<close>: what is neither a word character, white space nor a
  hyphen is deleted.\<close>

definition slugKeeps :: "char \<Rightarrow> bool" where
  "slugKeeps c = (isWordChar c \<or> isSpace c \<or> c = CHR ''-'')"

definition stripOthers :: "string \<Rightarrow> string" where
  "stripOthers s = filter slugKeeps s"

text \<open>\<open>.replace(/\s+/g, '-')\<close>: every maximal run of white space becomes one hyphen.\<close>

function spacesToHyphen :: "string \<Rightarrow> string" where
  "spacesToHyphen [] = []"
| "spacesToHyphen (c # cs) =
     (if isSpace c then CHR ''-'' # spacesToHyphen (dropWhile isSpace cs)
      else c # spacesToHyphen cs)"
  by pat_completeness auto
termination
  by (relation "measure length") (auto simp: le_imp_less_Suc length_dropWhile_le)

text \<open>\<open>.replace(/--+/g, '-')\<close>: every maximal run of two or more hyphens becomes one
  hyphen.\<close>

function collapseHyphens :: "string \<Rightarrow> string" where
  "collapseHyphens [] = []"
| "collapseHyphens [c] = [c]"
| "collapseHyphens (c # d # cs) =
     (if c = CHR ''-'' \<and> d = CHR ''-''
      then CHR ''-'' # collapseHyphens (dropWhile (\<lambda>x. x = CHR ''-'') cs)
      else c # collapseHyphens (d # cs))"
  by pat_completeness auto
termination
  by (relation "measure length")
    (auto simp: le_imp_less_Suc length_dropWhile_le intro: le_less_trans [OF length_dropWhile_le])

definition slugify :: "string \<Rightarrow> string" where
  "slugify nm = collapseHyphens (spacesToHyphen (stripOthers (toLowerCase nm)))"

text \<open>The slug as the specification words it: the name lowercased, non-word characters
  stripped, white-space runs collapsed to single hyphens. It is compared with \<open>slugify\<close>
  below.\<close>

definition slug_spec :: "string \<Rightarrow> string" where
  "slug_spec nm =
     spacesToHyphen (filter (\<lambda>c. isWordChar c \<or> isSpace c) (toLowerCase nm))"

text \<open>A one-pass reading of the last two replacements: every maximal run of white space
  and hyphens becomes one hyphen.\<close>

definition isSeparator :: "char \<Rightarrow> bool" where
  "isSeparator c = (isSpace c \<or> c = CHR ''-'')"

function separatorRuns :: "string \<Rightarrow> string" where
  "separatorRuns [] = []"
| "separatorRuns (c # cs) =
     (if isSeparator c then CHR ''-'' # separatorRuns (dropWhile isSeparator cs)
      else c # separatorRuns cs)"
  by pat_completeness auto
termination
  by (relation "measure length") (auto simp: le_imp_less_Suc length_dropWhile_le)

section \<open>Documents and collections\<close>

text \<open>
  An ObjectId is modelled by the string that its \<open>toString()\<close> returns. A stored category
  document carries the fields the modelled operations read or write: \<open>name\<close>, \<open>slug\<close>,
  \<open>parentCategory\<close> (\<open>None\<close> is \<open>null\<close>) and \<open>isActive\<close>, and the counts
  \<open>productCountReal\<close> and \<open>totalProductCount\<close> that the counting Category model
  declares. There is no stored \<open>productCount\<close>: both Category schemas declare it as a
  virtual only. A stored product document carries the scalar \<open>category\<close>, \<open>isActive\<close>,
  and the array \<open>categories\<close> when it has one (\<open>None\<close> is a document without the field).
  Time stamps, images and descriptive fields are left out: no modelled operation
  branches on them.
\<close>

type_synonym oid = string

record category =
  c_id :: oid
  c_name :: string
  c_slug :: string
  c_parentCategory :: "oid option"
  c_isActive :: bool
  c_productCountReal :: nat
  c_totalProductCount :: nat

record product =
  p_id :: oid
  p_category :: "oid option"
  p_categories :: "oid list option"
  p_isActive :: bool

record store =
  cats :: "category list"
  prods :: "product list"

text \<open>
  What the JavaScript runtime and its libraries decide is a parameter of the model:
  \<open>mongoose.Types.ObjectId.isValid\<close>; the cast of a request string to an ObjectId that
  \<open>findById\<close> and the query filters make, which is \<open>None\<close> when the cast throws; and
  \<open>new RegExp(source, "i")\<close>, which is \<open>None\<close> when the constructor throws a
  \<open>SyntaxError\<close> and otherwise the test of a string against the expression.

  \<open>moveCategory\<close> compares the request strings themselves with \<open>===\<close> and looks the
  categories up through the cast, so it takes the request strings and casts them where
  the source does. In the other routes a request id reaches the collections through
  casts only, or, for the String array \<open>categories\<close>, as the string it is; there it is
  modelled by one id, which takes the request to spell the id as it is stored.
\<close>

record runtime =
  ObjectId_isValid :: "string \<Rightarrow> bool"
  ObjectId_cast :: "string \<Rightarrow> oid option"
  RegExp_i :: "string \<Rightarrow> (string \<Rightarrow> bool) option"

datatype error =
    InvalidName
  | InvalidId
  | ParentNotFound
  | DuplicateSiblingName
  | DuplicateName
  | DuplicateKey
  | ValidationError
  | SelfParent
  | CircularReference
  | HasChildren
  | HasProducts
  | CategoryNotFound
  | ProductNotFound
  | ServerError

text \<open>\<open>Model.findById\<close>: the first document with the id. \<open>findByIdAndUpdate\<close>
  changes that document and no other.\<close>

definition findCategoryById :: "store \<Rightarrow> oid \<Rightarrow> category option" where
  "findCategoryById s i = find (\<lambda>c. c_id c = i) (cats s)"


fun updateFirst :: "('a \<Rightarrow> bool) \<Rightarrow> ('a \<Rightarrow> 'a) \<Rightarrow> 'a list \<Rightarrow> 'a list" where
  "updateFirst P f [] = []"
| "updateFirst P f (x # xs) = (if P x then f x # xs else x # updateFirst P f xs)"

fun removeFirst :: "('a \<Rightarrow> bool) \<Rightarrow> 'a list \<Rightarrow> 'a list" where
  "removeFirst P [] = []"
| "removeFirst P (x # xs) = (if P x then xs else x # removeFirst P xs)"

definition findByIdAndUpdate :: "oid \<Rightarrow> (category \<Rightarrow> category) \<Rightarrow> store \<Rightarrow> store" where
  "findByIdAndUpdate i f s = s\<lparr>cats := updateFirst (\<lambda>c. c_id c = i) f (cats s)\<rparr>"

text \<open>The pre-save middleware: \<open>if (!this.slug || this.isModified("name"))\<close> the slug is
  derived from the name.\<close>

definition preSaveSlug :: "bool \<Rightarrow> category \<Rightarrow> category" where
  "preSaveSlug nameModified c =
     (if c_slug c = [] \<or> nameModified then c\<lparr>c_slug := slugify (c_name c)\<rparr> else c)"

section \<open>The two Category schemas\<close>

text \<open>
  The repository has two Category models: models/Category.js, whose only middleware is
  the slug's, and the counting model, which declares \<open>productCountReal\<close>,
  \<open>totalProductCount\<close> and \<open>productCountUpdatedAt\<close> and recounts after a save and after
  \<open>findOneAndDelete\<close>. The routes and the controller load \<open>models/Category\<close>; the model
  in effect is a parameter. \<open>categorySchema\<close> lists the paths each schema declares;
  \<open>timestamps\<close> adds \<open>createdAt\<close> and \<open>updatedAt\<close>, Mongoose adds \<open>_id\<close> and \<open>__v\<close>.
\<close>

datatype category_model = BasicModel | CountingModel

definition categorySchema :: "category_model \<Rightarrow> string list" where
  "categorySchema m =
     [''name'', ''slug'', ''description'', ''image'', ''parentCategory'', ''isActive'',
      ''order'', ''seoTitle'', ''seoDescription'', ''seoKeywords''] @
     (case m of
        BasicModel \<Rightarrow> []
      | CountingModel \<Rightarrow> [''productCountReal'', ''totalProductCount'', ''productCountUpdatedAt''])"

definition categoryPaths :: "category_model \<Rightarrow> string list" where
  "categoryPaths m = ''_id'' # ''__v'' # ''createdAt'' # ''updatedAt'' # categorySchema m"

text \<open>
  \<open>Category.findByIdAndUpdate(id, update)\<close> with an update of counts. No schema sets
  \<open>strict\<close>, so the cast of the update deletes every key that is no path of the schema;
  the keys that stay are assigned to the first document with the id.
\<close>

definition castUpdate :: "category_model \<Rightarrow> (string \<times> nat) list \<Rightarrow> (string \<times> nat) list" where
  "castUpdate m update = filter (\<lambda>kv. List.member (categoryPaths m) (fst kv)) update"

definition assign :: "string \<times> nat \<Rightarrow> category \<Rightarrow> category" where
  "assign kv c =
     (if fst kv = ''productCountReal'' then c\<lparr>c_productCountReal := snd kv\<rparr>
      else if fst kv = ''totalProductCount'' then c\<lparr>c_totalProductCount := snd kv\<rparr>
      else c)"

definition Category_findByIdAndUpdate ::
  "category_model \<Rightarrow> oid \<Rightarrow> (string \<times> nat) list \<Rightarrow> store \<Rightarrow> store" where
  "Category_findByIdAndUpdate m i update s = findByIdAndUpdate i (fold assign (castUpdate m update)) s"

text \<open>
  The virtual \<open>productCount\<close> as a document of the model gives it: with models/Category.js
  it is a populate virtual that nothing populates, so it is \<open>undefined\<close> (\<open>None\<close>); with
  the counting model its getter returns \<open>this.productCountReal || 0\<close>.
\<close>

definition virtualProductCount :: "category_model \<Rightarrow> category \<Rightarrow> nat option" where
  "virtualProductCount m c = (case m of BasicModel \<Rightarrow> None | CountingModel \<Rightarrow> Some (c_productCountReal c))"

section \<open>The Product schema (models/Product.js)\<close>

text \<open>
  For the schema itself a document is a list of fields. \<open>productSchema\<close> lists the paths
  that models/Product.js declares; Mongoose adds \<open>_id\<close> and \<open>__v\<close>. The schema sets no
  \<open>strict\<close> option, so Mongoose's default holds: a field that the schema does not declare
  is not saved. A filter of \<open>countDocuments\<close> is a list of equalities; a field equals a
  value when it holds the value or is an array that contains it, and an absent field
  equals \<open>null\<close> only.
\<close>

datatype jsvalue = JNull | JBool bool | JNum int | JStr string | JArr "jsvalue list"









text \<open>
  The repository holds a second Product schema, in the file of the Review model: the
  schema above with the array path \<open>categories\<close> added, and a pre-save middleware for
  it. The server requires \<open>./models/Product\<close>; which schema the Product model has is a
  parameter. \<open>documentOf\<close> is the stored document of a product record, as far as the
  record goes.
\<close>

datatype product_model = ScalarSchema | ArraySchema





text \<open>
  The pre-save middleware of the second schema: blank entries are filtered out of
  \<open>categories\<close>, \<open>[...new Set(...)]\<close> keeps the first occurrence of every entry, and an
  unset scalar \<open>category\<close> becomes the first entry. \<open>product.save()\<close> writes the document
  back; with models/Product.js it writes no \<open>categories\<close>, and what is stored in that
  field stays.
\<close>

definition uniqueInOrder :: "'a list \<Rightarrow> 'a list" where
  "uniqueInOrder xs = rev (remdups (rev xs))"

definition preSaveProduct :: "product \<Rightarrow> product" where
  "preSaveProduct p =
     (let categories =
            uniqueInOrder (filter (\<lambda>cat. cat \<noteq> [] \<and> trim cat \<noteq> [])
                             (case p_categories p of None \<Rightarrow> [] | Some cs \<Rightarrow> cs))
      in p\<lparr>p_categories := Some categories,
           p_category := (if categories \<noteq> [] \<and> (p_category p = None \<or> p_category p = Some [])
                          then Some (hd categories) else p_category p)\<rparr>)"

definition saveProduct :: "product_model \<Rightarrow> product \<Rightarrow> store \<Rightarrow> store" where
  "saveProduct pm p s =
     s\<lparr>prods := updateFirst (\<lambda>q. p_id q = p_id p)
                  (\<lambda>q. case pm of
                          ScalarSchema \<Rightarrow> p\<lparr>p_categories := p_categories q\<rparr>
                        | ArraySchema \<Rightarrow> preSaveProduct p)
                  (prods s)\<rparr>"

section \<open>The server's count utilities and routes\<close>

text \<open>\<open>Product.countDocuments({ categories: categoryId, isActive: true })\<close> on the
  stored products.\<close>

definition countByCategories :: "store \<Rightarrow> oid \<Rightarrow> nat" where
  "countByCategories s categoryId =
     length (filter (\<lambda>p. (case p_categories p of None \<Rightarrow> False
                           | Some cs \<Rightarrow> categoryId \<in> set cs) \<and> p_isActive p) (prods s))"



record summary =
  totalCategories :: nat
  updated :: nat

text \<open>The loop of \<open>updateAllCategoryProductCounts\<close> over the categories read at its
  start: \<open>category.productCount !== productCount\<close> compares the virtual with the fresh
  count; the second component counts the calls of \<open>findByIdAndUpdate\<close>.\<close>

fun recountEach :: "category_model \<Rightarrow> category list \<Rightarrow> store \<times> nat \<Rightarrow> store \<times> nat" where
  "recountEach m [] acc = acc"
| "recountEach m (category # rest) (s, updatedCount) =
     (if virtualProductCount m category \<noteq> Some (countByCategories s (c_id category))
      then recountEach m rest
             (Category_findByIdAndUpdate m (c_id category)
                [(''productCount'', countByCategories s (c_id category))] s,
              Suc updatedCount)
      else recountEach m rest (s, updatedCount))"

definition updateAllCategoryProductCounts :: "category_model \<Rightarrow> store \<Rightarrow> store \<times> summary" where
  "updateAllCategoryProductCounts m s =
     (case recountEach m (cats s) (s, 0) of
        (s', updatedCount) \<Rightarrow>
          (s', \<lparr>totalCategories = length (cats s), updated = updatedCount\<rparr>))"


definition deleteOne :: "oid \<Rightarrow> store \<Rightarrow> store" where
  "deleteOne i s = s\<lparr>cats := removeFirst (\<lambda>c. c_id c = i) (cats s)\<rparr>"




section \<open>The counting Category model\<close>

text \<open>
  \<open>getAllDescendantIds(parentId)\<close> finds the active children of \<open>parentId\<close>, starts
  \<open>allIds\<close> with \<open>[parentId]\<close> and appends, child after child, what the call on the child
  returns. The call on an id is \<open>Visit\<close>; the \<open>for\<close> loop, with the children still to do
  and \<open>allIds\<close> so far, is \<open>Loop\<close>. Nothing bounds the recursion: \<open>None\<close> is a call that
  never returns.
\<close>

definition activeChildren :: "store \<Rightarrow> oid \<Rightarrow> category list" where
  "activeChildren s parentId =
     filter (\<lambda>c. c_parentCategory c = Some parentId \<and> c_isActive c) (cats s)"

datatype walk = Visit oid | Loop "oid list" "oid list"

partial_function (option) descend :: "store \<Rightarrow> walk \<Rightarrow> oid list option" where
  "descend s w =
     (case w of
        Visit parentId \<Rightarrow> descend s (Loop (map c_id (activeChildren s parentId)) [parentId])
      | Loop children allIds \<Rightarrow>
          (case children of
             [] \<Rightarrow> Some allIds
           | child # rest \<Rightarrow>
               Option.bind (descend s (Visit child))
                 (\<lambda>childIds. descend s (Loop rest (allIds @ childIds)))))"

declare descend.simps [code]

definition getAllDescendantIds :: "store \<Rightarrow> oid \<Rightarrow> oid list option" where
  "getAllDescendantIds s parentId = descend s (Visit parentId)"

text \<open>\<open>calculateProductCount\<close>: the products are counted by their scalar \<open>category\<close>.\<close>

definition countByCategory :: "store \<Rightarrow> oid \<Rightarrow> nat" where
  "countByCategory s categoryId =
     length (filter (\<lambda>p. p_category p = Some categoryId \<and> p_isActive p) (prods s))"

definition countByCategoryIn :: "store \<Rightarrow> oid list \<Rightarrow> nat" where
  "countByCategoryIn s allCategoryIds =
     length (filter (\<lambda>p. (case p_category p of None \<Rightarrow> False
                           | Some i \<Rightarrow> i \<in> set allCategoryIds) \<and> p_isActive p) (prods s))"

definition calculateProductCount :: "store \<Rightarrow> oid \<Rightarrow> bool \<Rightarrow> nat option" where
  "calculateProductCount s categoryId includeChildren =
     (if includeChildren
      then map_option (countByCategoryIn s) (getAllDescendantIds s categoryId)
      else Some (countByCategory s categoryId))"

definition updateProductCount :: "runtime \<Rightarrow> store \<Rightarrow> oid \<Rightarrow> store option" where
  "updateProductCount env s categoryId =
     (if categoryId = [] \<or> \<not> ObjectId_isValid env categoryId then Some s
      else
        (case calculateProductCount s categoryId False of
           None \<Rightarrow> None
         | Some productCount \<Rightarrow>
             (case calculateProductCount s categoryId True of
                None \<Rightarrow> None
              | Some totalProductCount \<Rightarrow>
                  Some (findByIdAndUpdate categoryId
                          (\<lambda>c. c\<lparr>c_productCountReal := productCount,
                                 c_totalProductCount := totalProductCount\<rparr>) s))))"

text \<open>The loop of \<open>updateAllProductCounts\<close>.\<close>

fun recalculateEach :: "category list \<Rightarrow> store \<times> nat \<Rightarrow> (store \<times> nat) option" where
  "recalculateEach [] acc = Some acc"
| "recalculateEach (category # rest) (s, updatedCount) =
     (case calculateProductCount s (c_id category) False of
        None \<Rightarrow> None
      | Some productCount \<Rightarrow>
          (case calculateProductCount s (c_id category) True of
             None \<Rightarrow> None
           | Some totalProductCount \<Rightarrow>
               if c_productCountReal category \<noteq> productCount \<or>
                  c_totalProductCount category \<noteq> totalProductCount
               then recalculateEach rest
                      (findByIdAndUpdate (c_id category)
                         (\<lambda>c. c\<lparr>c_productCountReal := productCount,
                                c_totalProductCount := totalProductCount\<rparr>) s,
                       Suc updatedCount)
               else recalculateEach rest (s, updatedCount)))"

definition updateAllProductCounts :: "store \<Rightarrow> (store \<times> summary) option" where
  "updateAllProductCounts s =
     (case recalculateEach (cats s) (s, 0) of
        None \<Rightarrow> None
      | Some (s', updatedCount) \<Rightarrow>
          Some (s', \<lparr>totalCategories = length (cats s), updated = updatedCount\<rparr>))"

text \<open>
  What \<open>GET /api/categories\<close> with \<open>includeTree\<close> puts into a listed category.
  \<open>productCount\<close> is the virtual, or the live count when the virtual is \<open>undefined\<close>.
  \<open>totalProductCount\<close> is computed only when the populated \<open>children\<close>, which are the
  active children, are not empty: it is \<open>productCount\<close> plus the live counts of these
  children. Otherwise the object has what \<open>toObject()\<close> gave it: the stored field of the
  counting model, or nothing (\<open>None\<close>).
\<close>

definition listedProductCount :: "category_model \<Rightarrow> store \<Rightarrow> category \<Rightarrow> nat" where
  "listedProductCount m s category =
     (case virtualProductCount m category of
        None \<Rightarrow> countByCategories s (c_id category)
      | Some n \<Rightarrow> n)"

definition treeTotalProductCount :: "category_model \<Rightarrow> store \<Rightarrow> category \<Rightarrow> nat option" where
  "treeTotalProductCount m s category =
     (if activeChildren s (c_id category) \<noteq> []
      then Some (listedProductCount m s category +
                 sum_list (map (\<lambda>child. countByCategories s (c_id child))
                             (activeChildren s (c_id category))))
      else (case m of BasicModel \<Rightarrow> None | CountingModel \<Rightarrow> Some (c_totalProductCount category)))"

text \<open>
  The descendant closure as the specification words it: every category below, at all
  depths, active or not. \<open>belowWithin n\<close> follows at most \<open>n\<close> parent links.
\<close>

fun belowWithin :: "nat \<Rightarrow> store \<Rightarrow> oid \<Rightarrow> oid \<Rightarrow> bool" where
  "belowWithin 0 s ancestor i = False"
| "belowWithin (Suc n) s ancestor i =
     (case findCategoryById s i of
        None \<Rightarrow> False
      | Some c \<Rightarrow>
          (case c_parentCategory c of
             None \<Rightarrow> False
           | Some p \<Rightarrow> p = ancestor \<or> belowWithin n s ancestor p))"

definition descendantIds_spec :: "store \<Rightarrow> oid \<Rightarrow> oid list" where
  "descendantIds_spec s i =
     filter (belowWithin (length (cats s)) s i) (remdups (map c_id (cats s)))"

definition subtreeProductCount_spec :: "store \<Rightarrow> oid \<Rightarrow> nat" where
  "subtreeProductCount_spec s i =
     countByCategories s i + sum_list (map (countByCategories s) (descendantIds_spec s i))"

section \<open>Saving and deleting a category document\<close>

text \<open>
  \<open>save()\<close> validates (\<open>name\<close> is required and at most 100 characters long), runs the
  pre-save middleware, writes the document under the unique indexes on \<open>slug\<close> and on
  \<open>(name, parentCategory)\<close>, and runs the post-save middleware. A document whose id is
  not stored is inserted; otherwise it replaces the stored one, and its name is modified
  when it differs from the stored name.
\<close>

definition validates :: "category \<Rightarrow> bool" where
  "validates doc = (c_name doc \<noteq> [] \<and> length (c_name doc) \<le> 100)"

definition uniqueIndexesHold :: "category \<Rightarrow> category list \<Rightarrow> bool" where
  "uniqueIndexesHold doc stored =
     (\<not> list_ex (\<lambda>c. c_id c \<noteq> c_id doc \<and>
                     (c_slug c = c_slug doc \<or>
                      (c_name c = c_name doc \<and> c_parentCategory c = c_parentCategory doc)))
          stored)"

definition writeCategory :: "category \<Rightarrow> store \<Rightarrow> store" where
  "writeCategory doc s =
     (case findCategoryById s (c_id doc) of
        None \<Rightarrow> s\<lparr>cats := cats s @ [doc]\<rparr>
      | Some old \<Rightarrow> s\<lparr>cats := updateFirst (\<lambda>c. c_id c = c_id doc) (\<lambda>_. doc) (cats s)\<rparr>)"

text \<open>The post-save middleware of the counting model: the parent first, when there is one,
  then the document itself.\<close>

definition postSave :: "runtime \<Rightarrow> category_model \<Rightarrow> store \<Rightarrow> category \<Rightarrow> store option" where
  "postSave env m s doc =
     (case m of
        BasicModel \<Rightarrow> Some s
      | CountingModel \<Rightarrow>
          (case c_parentCategory doc of
             None \<Rightarrow> updateProductCount env s (c_id doc)
           | Some parent \<Rightarrow>
               Option.bind (updateProductCount env s parent)
                 (\<lambda>s'. updateProductCount env s' (c_id doc))))"

definition saveCategory ::
  "runtime \<Rightarrow> category_model \<Rightarrow> store \<Rightarrow> category \<Rightarrow> (error + store) option" where
  "saveCategory env m s doc =
     (if \<not> validates doc then Some (Inl ValidationError)
      else
        (let nameModified =
               (case findCategoryById s (c_id doc) of
                  None \<Rightarrow> True
                | Some old \<Rightarrow> c_name old \<noteq> c_name doc);
             doc' = preSaveSlug nameModified doc
         in if \<not> uniqueIndexesHold doc' (cats s) then Some (Inl DuplicateKey)
            else map_option Inr (postSave env m (writeCategory doc' s) doc')))"


section \<open>The category controller\<close>





text \<open>
  \<open>moveCategory\<close> takes its ids as the request has them. A request field is absent,
  \<open>null\<close> or a string (other JSON values are not modelled). \<open>currentParent\<close> in its
  loop is first the request string \<open>newParentId\<close> and then the ObjectId
  \<open>parentCat.parentCategory\<close>: \<open>findById\<close> casts the first and takes the second as it is,
  and \<open>toString()\<close> gives the request string itself and the string of the ObjectId.
\<close>

datatype field = Undefined | Null | Text string

datatype idref = Requested string | Stored oid

definition toString :: "idref \<Rightarrow> string" where
  "toString r = (case r of Requested x \<Rightarrow> x | Stored i \<Rightarrow> i)"

definition Category_findById :: "runtime \<Rightarrow> store \<Rightarrow> idref \<Rightarrow> error + category option" where
  "Category_findById env s r =
     (case r of
        Stored i \<Rightarrow> Inr (findCategoryById s i)
      | Requested x \<Rightarrow>
          (case ObjectId_cast env x of
             None \<Rightarrow> Inl ServerError
           | Some i \<Rightarrow> Inr (findCategoryById s i)))"

text \<open>
  The loop that walks up from the new parent: \<open>Inr True\<close> when
  \<open>currentParent.toString() === id\<close>, \<open>Inr False\<close> when it leaves by \<open>break\<close> or by its
  condition, \<open>Inl\<close> when \<open>findById\<close> throws, \<open>None\<close> when it never leaves.
\<close>

partial_function (option) ancestorWalk ::
  "runtime \<Rightarrow> store \<Rightarrow> string \<Rightarrow> idref \<Rightarrow> (error + bool) option" where
  "ancestorWalk env s i currentParent =
     (if toString currentParent = [] then Some (Inr False)
      else if toString currentParent = i then Some (Inr True)
      else
        (case Category_findById env s currentParent of
           Inl e \<Rightarrow> Some (Inl e)
         | Inr None \<Rightarrow> Some (Inr False)
         | Inr (Some parentCat) \<Rightarrow>
             (case c_parentCategory parentCat of
                None \<Rightarrow> Some (Inr False)
              | Some next \<Rightarrow> ancestorWalk env s i (Stored next))))"

declare ancestorWalk.simps [code]

text \<open>What the \<open>catch\<close> of \<open>moveCategory\<close> answers for any error of \<open>save()\<close>.\<close>

definition serverErrorOf :: "(error + store) option \<Rightarrow> (error + store) option" where
  "serverErrorOf r = (case r of Some (Inl e) \<Rightarrow> Some (Inl ServerError) | _ \<Rightarrow> r)"

text \<open>
  \<open>moveCategory\<close>. \<open>newParentId === null || newParentId === ""\<close> moves to the root; an
  absent \<open>newParentId\<close> is no valid id. The guard \<open>newParentId === id\<close> compares the two
  request strings; the queries cast them.
\<close>

definition moveCategory ::
  "runtime \<Rightarrow> category_model \<Rightarrow> store \<Rightarrow> string \<Rightarrow> field \<Rightarrow> (error + store) option" where
  "moveCategory env m s i newParentId =
     (if \<not> ObjectId_isValid env i then Some (Inl InvalidId)
      else
        (case ObjectId_cast env i of
           None \<Rightarrow> Some (Inl ServerError)
         | Some categoryId \<Rightarrow>
             (case findCategoryById s categoryId of
                None \<Rightarrow> Some (Inl CategoryNotFound)
              | Some category \<Rightarrow>
                  if newParentId = Null \<or> newParentId = Text []
                  then serverErrorOf (saveCategory env m s (category\<lparr>c_parentCategory := None\<rparr>))
                  else
                    (case newParentId of
                       Text newParent \<Rightarrow>
                         if \<not> ObjectId_isValid env newParent then Some (Inl InvalidId)
                         else
                           (case ObjectId_cast env newParent of
                              None \<Rightarrow> Some (Inl ServerError)
                            | Some parentId \<Rightarrow>
                                if findCategoryById s parentId = None then Some (Inl ParentNotFound)
                                else if newParent = i then Some (Inl SelfParent)
                                else
                                  (case ancestorWalk env s i (Requested newParent) of
                                     None \<Rightarrow> None
                                   | Some (Inl e) \<Rightarrow> Some (Inl ServerError)
                                   | Some (Inr True) \<Rightarrow> Some (Inl CircularReference)
                                   | Some (Inr False) \<Rightarrow>
                                       (case RegExp_i env (''^'' @ c_name category @ ''$'') of
                                          None \<Rightarrow> Some (Inl ServerError)
                                        | Some matches \<Rightarrow>
                                            if list_ex (\<lambda>c. matches (c_name c) \<and>
                                                            c_parentCategory c = Some parentId \<and>
                                                            c_id c \<noteq> categoryId) (cats s)
                                            then Some (Inl DuplicateSiblingName)
                                            else serverErrorOf
                                                   (saveCategory env m s
                                                      (category\<lparr>c_parentCategory :=
                                                                   Some parentId\<rparr>)))))
                     | _ \<Rightarrow> Some (Inl InvalidId)))))"



section \<open>Parent chains\<close>

text \<open>
  \<open>parentOf s i\<close> is \<open>None\<close> when no category has the id, \<open>Some None\<close> for a root and
  \<open>Some (Some p)\<close> for a category whose parent is \<open>p\<close>. The chain of an id ends when
  following the parents arrives at an id that the recomputation does not follow: an
  empty or invalid id, an id of no category, or a root.
\<close>

definition parentOf :: "store \<Rightarrow> oid \<Rightarrow> oid option option" where
  "parentOf s i = map_option c_parentCategory (findCategoryById s i)"

inductive chainEnds :: "(oid \<Rightarrow> bool) \<Rightarrow> (oid \<Rightarrow> oid option option) \<Rightarrow> oid \<Rightarrow> bool"
  for valid :: "oid \<Rightarrow> bool" and par :: "oid \<Rightarrow> oid option option" where
  stops: "i = [] \<or> \<not> valid i \<or> par i = None \<or> par i = Some None \<Longrightarrow> chainEnds valid par i"
| climbs: "par i = Some (Some p) \<Longrightarrow> chainEnds valid par p \<Longrightarrow> chainEnds valid par i"

text \<open>
  The categories that the walk of \<open>getAllDescendantIds\<close> reaches below an id: the active
  children, and what is below them. The walk is finite when the walks of the active
  children are.
\<close>

inductive activeBelow :: "store \<Rightarrow> oid \<Rightarrow> oid \<Rightarrow> bool" for s :: store where
  child: "c \<in> set (activeChildren s i) \<Longrightarrow> activeBelow s i (c_id c)"
| deeper: "c \<in> set (activeChildren s i) \<Longrightarrow> activeBelow s (c_id c) d \<Longrightarrow> activeBelow s i d"

inductive walkEnds :: "store \<Rightarrow> oid \<Rightarrow> bool" for s :: store where
  all: "(\<And>c. c \<in> set (activeChildren s i) \<Longrightarrow> walkEnds s (c_id c)) \<Longrightarrow> walkEnds s i"

text \<open>The walk of \<open>moveCategory\<close> from an id meets \<open>i\<close> when the id is \<open>i\<close>, or when the
  category of the id has a parent from which the walk meets \<open>i\<close>.\<close>

inductive walkMeets :: "store \<Rightarrow> oid \<Rightarrow> oid \<Rightarrow> bool" for s :: store and i :: oid where
  here: "currentParent \<noteq> [] \<Longrightarrow> currentParent = i \<Longrightarrow> walkMeets s i currentParent"
| above: "currentParent \<noteq> [] \<Longrightarrow> parentOf s currentParent = Some (Some next) \<Longrightarrow>
          walkMeets s i next \<Longrightarrow> walkMeets s i currentParent"

text \<open>A category document without its stored counts: what the recomputations never
  change.\<close>

definition eraseCounts :: "category \<Rightarrow> category" where
  "eraseCounts c = c\<lparr>c_productCountReal := 0, c_totalProductCount := 0\<rparr>"

section \<open>Example data\<close>


definition exampleCategory :: category where
  "exampleCategory =
     \<lparr>c_id = ''c1'', c_name = ''Engine Parts'', c_slug = ''engine-parts'',
      c_parentCategory = None, c_isActive = True, c_productCountReal = 0,
      c_totalProductCount = 0\<rparr>"

text \<open>A runtime in which every string is a valid id and casts to itself.\<close>

definition anyId :: runtime where
  "anyId = \<lparr>ObjectId_isValid = (\<lambda>i. True), ObjectId_cast = Some, RegExp_i = (\<lambda>source. None)\<rparr>"

definition mkCategory :: "oid \<Rightarrow> string \<Rightarrow> oid option \<Rightarrow> bool \<Rightarrow> category" where
  "mkCategory i nm parent active =
     \<lparr>c_id = i, c_name = nm, c_slug = slugify nm, c_parentCategory = parent,
      c_isActive = active, c_productCountReal = 0, c_totalProductCount = 0\<rparr>"

definition mkProduct :: "oid \<Rightarrow> oid list \<Rightarrow> bool \<Rightarrow> product" where
  "mkProduct i categories active =
     \<lparr>p_id = i, p_category = (case categories of [] \<Rightarrow> None | c # _ \<Rightarrow> Some c),
      p_categories = Some categories, p_isActive = active\<rparr>"


text \<open>Two categories that are each other's parent, as \<open>PUT /api/categories/:id\<close>, which
  checks no cycle, can leave them.\<close>

definition cyclicStore :: store where
  "cyclicStore =
     \<lparr>cats = [mkCategory ''a'' ''Brakes'' (Some ''b'') True,
              mkCategory ''b'' ''Discs'' (Some ''a'') True],
      prods = []\<rparr>"


definition smallStore :: store where
  "smallStore =
     \<lparr>cats = [mkCategory ''a'' ''Engine Parts'' None True,
              mkCategory ''b'' ''Pistons'' (Some ''a'') True],
      prods = [mkProduct ''p1'' [''b''] True]\<rparr>"

text \<open>A root and its child, each with a product of its own.\<close>

definition familyStore :: store where
  "familyStore =
     \<lparr>cats = [mkCategory ''a'' ''Engine Parts'' None True,
              mkCategory ''b'' ''Pistons'' (Some ''a'') True],
      prods = [mkProduct ''p1'' [''a''] True, mkProduct ''p2'' [''b''] True]\<rparr>"

text \<open>A root with an inactive child that holds a product, and a root above a child and a
  grandchild that holds a product.\<close>

definition inactiveChildStore :: store where
  "inactiveChildStore =
     \<lparr>cats = [mkCategory ''a'' ''Engine Parts'' None True,
              mkCategory ''b'' ''Pistons'' (Some ''a'') False],
      prods = [mkProduct ''p1'' [''b''] True]\<rparr>"

definition deepStore :: store where
  "deepStore =
     \<lparr>cats = [mkCategory ''a'' ''Engine Parts'' None True,
              mkCategory ''b'' ''Pistons'' (Some ''a'') True,
              mkCategory ''c'' ''Piston Rings'' (Some ''b'') True],
      prods = [mkProduct ''p1'' [''c''] True]\<rparr>"

text \<open>A runtime for names without a metacharacter of regular expressions: every id is
  valid and casts to itself, and the test against \<open>^name$\<close> with the flag \<open>i\<close> is equality with \<open>name\<close> up
  to case.\<close>

definition plainNames :: runtime where
  "plainNames =
     \<lparr>ObjectId_isValid = (\<lambda>i. True), ObjectId_cast = Some,
      RegExp_i = (\<lambda>source. Some (\<lambda>subject. toLowerCase subject = toLowerCase (butlast (tl source))))\<rparr>"




text \<open>A root to be moved under a category whose own parent chain is a cycle, where a
  category of the same name up to case already is.\<close>

definition cyclicAncestorsStore :: store where
  "cyclicAncestorsStore =
     \<lparr>cats = [mkCategory ''x'' ''Brakes'' (Some ''y'') True,
              mkCategory ''y'' ''Discs'' (Some ''x'') True,
              mkCategory ''z'' ''brake pads'' (Some ''x'') True,
              mkCategory ''b'' ''Brake Pads'' None True],
      prods = []\<rparr>"

definition siblingStore :: store where
  "siblingStore =
     \<lparr>cats = [mkCategory ''a'' ''Engine Parts'' None True,
              mkCategory ''b'' ''Pistons'' (Some ''a'') True,
              mkCategory ''d'' ''pistons'' None True],
      prods = []\<rparr>"

text \<open>A runtime in which a request string casts to the ObjectId of its lower-case form, as
  a string of hexadecimal digits does, and a category whose id has a letter.\<close>

definition hexIds :: runtime where
  "hexIds =
     \<lparr>ObjectId_isValid = (\<lambda>i. True), ObjectId_cast = (\<lambda>x. Some (toLowerCase x)),
      RegExp_i = (\<lambda>source. Some (\<lambda>subject. toLowerCase subject = toLowerCase (butlast (tl source))))\<rparr>"

definition letterStore :: store where
  "letterStore = \<lparr>cats = [mkCategory ''5f1a'' ''Engine Parts'' None True], prods = []\<rparr>"

definition ownParentStore :: store where
  "ownParentStore = \<lparr>cats = [mkCategory ''5f1a'' ''Engine Parts'' (Some ''5f1a'') True], prods = []\<rparr>"

text \<open>A category with one product under the parent \<open>a\<close>, whose stored total counts it,
  and another root \<open>d\<close>.\<close>

definition countedStore :: store where
  "countedStore =
     \<lparr>cats = [(mkCategory ''a'' ''Engine Parts'' None True)\<lparr>c_totalProductCount := 1\<rparr>,
              (mkCategory ''b'' ''Pistons'' (Some ''a'') True)
                 \<lparr>c_productCountReal := 1, c_totalProductCount := 1\<rparr>,
              mkCategory ''d'' ''Cylinders'' None True],
      prods = [mkProduct ''p1'' [''b''] True]\<rparr>"

text \<open>The same store once \<open>b\<close> is under \<open>d\<close> and the counts of \<open>d\<close> and \<open>b\<close> are
  stored anew; the document of \<open>a\<close> is as before.\<close>

definition movedStore :: store where
  "movedStore =
     \<lparr>cats = [(mkCategory ''a'' ''Engine Parts'' None True)\<lparr>c_totalProductCount := 1\<rparr>,
              (mkCategory ''b'' ''Pistons'' (Some ''d'') True)
                 \<lparr>c_productCountReal := 1, c_totalProductCount := 1\<rparr>,
              (mkCategory ''d'' ''Cylinders'' None True)\<lparr>c_totalProductCount := 1\<rparr>],
      prods = [mkProduct ''p1'' [''b''] True]\<rparr>"

section \<open>Properties of the slug\<close>

lemma collapseHyphens_other:
  "c \<noteq> CHR ''-'' \<Longrightarrow> collapseHyphens (c # cs) = c # collapseHyphens cs"
  by (cases cs) auto

lemma collapseHyphens_hyphen:
  "collapseHyphens (CHR ''-'' # cs) =
     CHR ''-'' # collapseHyphens (dropWhile (\<lambda>x. x = CHR ''-'') cs)"
  by (cases cs) auto

lemma dropWhile_separator_space:
  "dropWhile isSeparator (dropWhile isSpace cs) = dropWhile isSeparator cs"
  by (induction cs) (auto simp: isSeparator_def)

text \<open>The two replacements in a row agree with the one-pass reading; the statement about
  a dropped hyphen prefix is what the induction needs after a run.\<close>

lemma two_replacements_bounded:
  "length s \<le> n \<Longrightarrow>
     collapseHyphens (spacesToHyphen s) = separatorRuns s \<and>
     collapseHyphens (dropWhile (\<lambda>x. x = CHR ''-'') (spacesToHyphen s)) =
       separatorRuns (dropWhile isSeparator s)"
proof (induction n arbitrary: s)
  case 0
  then show ?case by simp
next
  case (Suc n)
  show ?case
  proof (cases s)
    case Nil
    then show ?thesis by simp
  next
    case (Cons c cs)
    have len: "length cs \<le> n" using Suc.prems Cons by simp
    have len': "length (dropWhile isSpace cs) \<le> n"
      using len length_dropWhile_le [of isSpace cs] by linarith
    note tail = Suc.IH [OF len] and after_run = Suc.IH [OF len']
    show ?thesis
    proof (cases "isSpace c")
      case True
      then have sep: "isSeparator c" by (simp add: isSeparator_def)
      show ?thesis using True sep after_run Cons
        by (simp add: collapseHyphens_hyphen dropWhile_separator_space)
    next
      case False
      show ?thesis
      proof (cases "c = CHR ''-''")
        case True
        then have sep: "isSeparator c" by (simp add: isSeparator_def)
        show ?thesis using True False sep tail Cons
          by (simp add: collapseHyphens_hyphen)
      next
        case other: False
        then have sep: "\<not> isSeparator c" using False by (simp add: isSeparator_def)
        show ?thesis using other False sep tail Cons
          by (simp add: collapseHyphens_other)
      qed
    qed
  qed
qed

lemma two_replacements: "collapseHyphens (spacesToHyphen s) = separatorRuns s"
  using two_replacements_bounded [of s "length s"] by simp

lemma lowerChar_hyphen: "lowerChar c = CHR ''-'' \<longleftrightarrow> c = CHR ''-''"
proof (cases "isUpper c")
  case True
  then have "(of_char (lowerChar c) :: nat) = of_char c + 32"
    by (simp add: lowerChar_def isUpper_def Let_def)
  moreover have "(of_char c :: nat) \<noteq> 45" "(of_char c :: nat) + 32 \<noteq> 45"
    using True by (auto simp: isUpper_def Let_def)
  ultimately show ?thesis by auto
next
  case False
  then show ?thesis by (simp add: lowerChar_def)
qed

lemma toLowerCase_hyphen_free:
  "CHR ''-'' \<notin> set nm \<Longrightarrow> CHR ''-'' \<notin> set (toLowerCase nm)"
proof
  assume free: "CHR ''-'' \<notin> set nm" and "CHR ''-'' \<in> set (toLowerCase nm)"
  then obtain c where "c \<in> set nm" "lowerChar c = CHR ''-''"
    by (auto simp: toLowerCase_def)
  then show False using free by (simp add: lowerChar_hyphen)
qed

lemma stripOthers_hyphen_free:
  "CHR ''-'' \<notin> set s \<Longrightarrow> stripOthers s = filter (\<lambda>c. isWordChar c \<or> isSpace c) s"
  unfolding stripOthers_def by (rule filter_cong) (auto simp: slugKeeps_def)

lemma dropWhile_separator_hyphen_free:
  "CHR ''-'' \<notin> set s \<Longrightarrow> dropWhile isSeparator s = dropWhile isSpace s"
  by (rule dropWhile_cong) (auto simp: isSeparator_def)

lemma separatorRuns_hyphen_free:
  "CHR ''-'' \<notin> set s \<Longrightarrow> separatorRuns s = spacesToHyphen s"
proof (induction s rule: spacesToHyphen.induct)
  case 1
  then show ?case by simp
next
  case (2 c cs)
  have rest: "CHR ''-'' \<notin> set (dropWhile isSpace cs)"
    using 2(3) set_dropWhileD by fastforce
  show ?case
  proof (cases "isSpace c")
    case True
    then have "isSeparator c" by (simp add: isSeparator_def)
    then show ?thesis using True 2(1) [OF True rest] 2(3)
      by (simp add: dropWhile_separator_hyphen_free)
  next
    case False
    then have "\<not> isSeparator c" using 2(3) by (auto simp: isSeparator_def)
    then show ?thesis using False 2(2) [OF False] 2(3) by simp
  qed
qed

text \<open>
  C10, as the code has it. The slug is the lowercased name with every character deleted
  that is neither a word character, white space nor a hyphen, and with every maximal run
  of white space and hyphens replaced by one hyphen: hyphens of the name are kept, not
  stripped. On a name without hyphens this is the slug the specification words. The
  pre-save middleware derives the slug when the name was modified or the slug is empty,
  and leaves a non-empty slug alone otherwise.
\<close>

theorem slug_derivation:
  "slugify nm = separatorRuns (stripOthers (toLowerCase nm)) \<and>
   (CHR ''-'' \<notin> set nm \<longrightarrow> slugify nm = slug_spec nm) \<and>
   c_slug (preSaveSlug True c) = slugify (c_name c) \<and>
   (c_slug c = [] \<longrightarrow> c_slug (preSaveSlug m c) = slugify (c_name c)) \<and>
   (c_slug c \<noteq> [] \<longrightarrow> preSaveSlug False c = c)"
  by (simp add: slugify_def slug_spec_def two_replacements toLowerCase_hyphen_free
      stripOthers_hyphen_free separatorRuns_hyphen_free preSaveSlug_def)

theorem slug_derivation_witness:
  "slugify ''Engine Parts'' = separatorRuns (stripOthers (toLowerCase ''Engine Parts'')) \<and>
   CHR ''-'' \<notin> set ''Engine Parts'' \<and>
   slugify ''Engine Parts'' = slug_spec ''Engine Parts'' \<and>
   slugify ''Engine Parts'' = ''engine-parts'' \<and>
   c_slug (preSaveSlug True (exampleCategory\<lparr>c_name := ''Brake Pads''\<rparr>)) = ''brake-pads'' \<and>
   c_slug exampleCategory \<noteq> [] \<and>
   preSaveSlug False exampleCategory = exampleCategory"
proof -
  have free: "CHR ''-'' \<notin> set ''Engine Parts''" by simp
  have slug: "c_slug exampleCategory \<noteq> []" by (simp add: exampleCategory_def)
  have slugs: "slugify ''Engine Parts'' = ''engine-parts''" "slugify ''Brake Pads'' = ''brake-pads''"
    by code_simp+
  from slug_derivation [of "''Engine Parts''" exampleCategory False] free slug
  have one: "slugify ''Engine Parts'' = separatorRuns (stripOthers (toLowerCase ''Engine Parts''))"
    and two: "slugify ''Engine Parts'' = slug_spec ''Engine Parts''"
    and three: "preSaveSlug False exampleCategory = exampleCategory"
    by blast+
  from slug_derivation [of "''Engine Parts''" "exampleCategory\<lparr>c_name := ''Brake Pads''\<rparr>" False]
  have "c_slug (preSaveSlug True (exampleCategory\<lparr>c_name := ''Brake Pads''\<rparr>)) =
        slugify (c_name (exampleCategory\<lparr>c_name := ''Brake Pads''\<rparr>))"
    by blast
  then have four: "c_slug (preSaveSlug True (exampleCategory\<lparr>c_name := ''Brake Pads''\<rparr>)) = ''brake-pads''"
    using slugs by simp
  from one two three four free slug slugs(1) show ?thesis by blast
qed

text \<open>C10 as stated fails: a hyphen is not a word character, and the slug keeps it.\<close>

theorem slug_keeps_hyphens:
  "slugify ''Anti-Lock Brakes'' = ''anti-lock-brakes'' \<and>
   slug_spec ''Anti-Lock Brakes'' = ''antilock-brakes'' \<and>
   slugify ''Anti-Lock Brakes'' \<noteq> slug_spec ''Anti-Lock Brakes''"
  by code_simp

section \<open>Properties of the Product schema\<close>



















section \<open>Reading and writing the collections\<close>

lemma find_updateFirst:
  assumes "\<And>c. c_id (f c) = c_id c"
  shows "find (\<lambda>c. c_id c = i) (updateFirst (\<lambda>c. c_id c = j) f cs) =
         (if i = j then map_option f (find (\<lambda>c. c_id c = i) cs)
          else find (\<lambda>c. c_id c = i) cs)"
  by (induction cs) (auto simp: assms)

lemma findCategoryById_update:
  assumes "\<And>c. c_id (f c) = c_id c"
  shows "findCategoryById (findByIdAndUpdate j f s) i =
         (if i = j then map_option f (findCategoryById s i) else findCategoryById s i)"
  by (simp add: findCategoryById_def findByIdAndUpdate_def find_updateFirst assms)

lemma parentOf_update:
  assumes "\<And>c. c_id (f c) = c_id c" "\<And>c. c_parentCategory (f c) = c_parentCategory c"
  shows "parentOf (findByIdAndUpdate j f s) = parentOf s"
  by (rule ext) (simp add: parentOf_def findCategoryById_update assms option.map_comp comp_def)

lemma prods_update [simp]: "prods (findByIdAndUpdate j f s) = prods s"
  by (simp add: findByIdAndUpdate_def)

lemma findCategoryById_id: "findCategoryById s i = Some c \<Longrightarrow> c_id c = i"
  by (auto simp: findCategoryById_def find_Some_iff)


lemma updateFirst_erased:
  assumes "\<And>c. eraseCounts (f c) = eraseCounts c"
  shows "map eraseCounts (updateFirst P f cs) = map eraseCounts cs"
  by (induction cs) (auto simp: assms)

lemma erased_update:
  assumes "\<And>c. eraseCounts (f c) = eraseCounts c"
  shows "map eraseCounts (cats (findByIdAndUpdate j f s)) = map eraseCounts (cats s)"
  by (simp add: findByIdAndUpdate_def updateFirst_erased assms)

lemma find_mapped: "find P (map f xs) = map_option f (find (P \<circ> f) xs)"
  by (induction xs) auto

lemma erased_find:
  assumes "map eraseCounts cs' = map eraseCounts cs"
  shows "map_option eraseCounts (find (\<lambda>c. c_id c = i) cs') =
         map_option eraseCounts (find (\<lambda>c. c_id c = i) cs)"
proof -
  have same: "(\<lambda>c. c_id c = i) \<circ> eraseCounts = (\<lambda>c. c_id c = i)"
    by (rule ext) (simp add: eraseCounts_def)
  have "map_option eraseCounts (find (\<lambda>c. c_id c = i) cs') =
        find (\<lambda>c. c_id c = i) (map eraseCounts cs')"
    by (simp add: find_mapped same)
  also have "\<dots> = map_option eraseCounts (find (\<lambda>c. c_id c = i) cs)"
    by (simp add: assms find_mapped same)
  finally show ?thesis .
qed

lemma erased_parentOf:
  assumes "map eraseCounts (cats s') = map eraseCounts (cats s)"
  shows "parentOf s' = parentOf s"
proof
  fix i
  have "map_option c_parentCategory (map_option eraseCounts (findCategoryById s' i)) =
        map_option c_parentCategory (map_option eraseCounts (findCategoryById s i))"
    using erased_find [OF assms, of i] by (simp add: findCategoryById_def)
  then show "parentOf s' i = parentOf s i"
    by (simp add: parentOf_def option.map_comp comp_def eraseCounts_def)
qed

text \<open>Both Category schemas declare \<open>productCount\<close> as a virtual only, so the cast of the
  update deletes the key, and the update of the server's recomputation changes no stored
  field of the model.\<close>

lemma updateFirst_same: "(\<And>x. f x = x) \<Longrightarrow> updateFirst P f xs = xs"
  by (induction xs) auto

lemma productCount_not_declared: "\<not> List.member (categoryPaths m) ''productCount''"
  by (cases m) (simp_all add: categoryPaths_def categorySchema_def)

lemma productCount_write_dropped:
  "Category_findByIdAndUpdate m i [(''productCount'', n)] s = s"
  using productCount_not_declared [of m]
  by (simp add: Category_findByIdAndUpdate_def castUpdate_def findByIdAndUpdate_def updateFirst_same)

section \<open>The cascading recomputation of the server\<close>




lemma cyclic_descend_never_returns:
  "descend s w = Some y \<Longrightarrow> s = cyclicStore \<Longrightarrow>
   w = Visit ''a'' \<or> w = Visit ''b'' \<or> (\<exists>rest acc. w = Loop (''a'' # rest) acc) \<or>
   (\<exists>rest acc. w = Loop (''b'' # rest) acc) \<Longrightarrow> False"
proof (induction s w y rule: descend.raw_induct [rotated 1, consumes 1, case_names step])
  case (step descend s w y)
  have children: "map c_id (activeChildren cyclicStore ''a'') = [''b'']"
    "map c_id (activeChildren cyclicStore ''b'') = [''a'']"
    by code_simp+
  from step(4) consider "w = Visit ''a''" | "w = Visit ''b''"
    | rest acc where "w = Loop (''a'' # rest) acc" | rest acc where "w = Loop (''b'' # rest) acc"
    by blast
  then show ?case
  proof cases
    case 1
    then have "descend s (Loop [''b''] [''a'']) = Some y"
      using step(2,3) children by simp
    then show ?thesis using step(1) step(3) by blast
  next
    case 2
    then have "descend s (Loop [''a''] [''b'']) = Some y"
      using step(2,3) children by simp
    then show ?thesis using step(1) step(3) by blast
  next
    case 3
    then obtain ids where "descend s (Visit ''a'') = Some ids"
      using step(2) by (auto simp: bind_eq_Some_conv)
    then show ?thesis using step(1) step(3) by blast
  next
    case 4
    then obtain ids where "descend s (Visit ''b'') = Some ids"
      using step(2) by (auto simp: bind_eq_Some_conv)
    then show ?thesis using step(1) step(3) by blast
  qed
qed





section \<open>Linking and unlinking a product\<close>


lemma p_id_preSaveProduct [simp]: "p_id (preSaveProduct p) = p_id p"
  by (simp add: preSaveProduct_def Let_def)


lemma cats_saveProduct [simp]: "cats (saveProduct pm p s) = cats s"
  by (simp add: saveProduct_def)










section \<open>Recomputing all counts\<close>

lemma erased_activeChildren:
  assumes "map eraseCounts (cats s') = map eraseCounts (cats s)"
  shows "map c_id (activeChildren s' i) = map c_id (activeChildren s i)"
proof -
  let ?Q = "\<lambda>c. c_parentCategory c = Some i \<and> c_isActive c"
  have q: "?Q \<circ> eraseCounts = ?Q" by (rule ext) (simp add: eraseCounts_def)
  have i: "c_id \<circ> eraseCounts = c_id" by (rule ext) (simp add: eraseCounts_def)
  have general: "map c_id (filter ?Q cs) = map c_id (filter ?Q (map eraseCounts cs))" for cs
    by (simp add: filter_map q i)
  have "map c_id (filter ?Q (cats s')) = map c_id (filter ?Q (map eraseCounts (cats s')))"
    by (rule general)
  also have "\<dots> = map c_id (filter ?Q (map eraseCounts (cats s)))"
    by (simp only: assms)
  also have "\<dots> = map c_id (filter ?Q (cats s))"
    by (rule general [symmetric])
  finally show ?thesis by (simp add: activeChildren_def)
qed

lemma descend_transfer:
  "descend s w = Some y \<Longrightarrow>
   (\<And>i. map c_id (activeChildren s' i) = map c_id (activeChildren s i)) \<Longrightarrow>
   descend s' w = Some y"
proof (induction s w y rule: descend.raw_induct [rotated 1, consumes 1, case_names step])
  case (step descend0 s w y)
  show ?case
  proof (cases w)
    case (Visit parentId)
    then have "descend0 s (Loop (map c_id (activeChildren s parentId)) [parentId]) = Some y"
      using step(2) by simp
    then have "descend s' (Loop (map c_id (activeChildren s parentId)) [parentId]) = Some y"
      using step(1) step(3) by blast
    then show ?thesis using Visit step(3) by (subst descend.simps) simp
  next
    case (Loop children allIds)
    show ?thesis
    proof (cases children)
      case Nil
      then show ?thesis using Loop step(2) by (subst descend.simps) simp
    next
      case (Cons child rest)
      then obtain childIds where c: "descend0 s (Visit child) = Some childIds"
        "descend0 s (Loop rest (allIds @ childIds)) = Some y"
        using Loop step(2) by (auto simp: bind_eq_Some_conv)
      have "descend s' (Visit child) = Some childIds"
        "descend s' (Loop rest (allIds @ childIds)) = Some y"
        using c step(1) step(3) by blast+
      then show ?thesis using Loop Cons by (subst descend.simps) simp
    qed
  qed
qed

lemma descend_erased:
  assumes "map eraseCounts (cats s') = map eraseCounts (cats s)"
  shows "descend s' w = descend s w"
proof (cases "descend s w")
  case None
  show ?thesis
  proof (cases "descend s' w")
    case inner: None
    then show ?thesis using None by simp
  next
    case (Some y)
    then have "descend s w = Some y"
      using erased_activeChildren [OF assms] by (intro descend_transfer [of s' w y s]) auto
    then show ?thesis using None by simp
  qed
next
  case (Some y)
  then have "descend s' w = Some y"
    using erased_activeChildren [OF assms] by (intro descend_transfer [of s w y s']) auto
  then show ?thesis using Some by simp
qed

lemma calculateProductCount_erased:
  assumes "map eraseCounts (cats s') = map eraseCounts (cats s)" "prods s' = prods s"
  shows "calculateProductCount s' i b = calculateProductCount s i b"
proof -
  have "countByCategoryIn s' = countByCategoryIn s"
    by (rule ext) (simp add: countByCategoryIn_def assms)
  then show ?thesis
    by (simp add: calculateProductCount_def getAllDescendantIds_def descend_erased [OF assms(1)]
      countByCategory_def assms(2))
qed

lemma updateFirst_fresh:
  "\<forall>c\<in>set before. c_id c \<noteq> c_id x \<Longrightarrow>
   updateFirst (\<lambda>c. c_id c = c_id x) f (before @ x # after) = before @ f x # after"
  by (induction before) auto

lemma recountEach_result:
  "recountEach m rest (st, n) =
     (st, n + length (filter (\<lambda>c. virtualProductCount m c \<noteq> Some (countByCategories st (c_id c))) rest))"
  by (induction rest arbitrary: n) (simp_all add: productCount_write_dropped)

text \<open>What the server's \<open>updateAllCategoryProductCounts\<close> returns: the store it was given,
  the number of categories, and the number of categories whose virtual \<open>productCount\<close>
  is not the fresh count.\<close>

lemma server_recount_reports:
  "updateAllCategoryProductCounts m s =
     (s, \<lparr>totalCategories = length (cats s),
          updated = length (filter (\<lambda>c. virtualProductCount m c \<noteq> Some (countByCategories s (c_id c)))
                              (cats s))\<rparr>)"
  by (simp add: updateAllCategoryProductCounts_def recountEach_result)

lemma server_recount_twice:
  "updateAllCategoryProductCounts BasicModel smallStore =
     (smallStore, \<lparr>totalCategories = 2, updated = 2\<rparr>) \<and>
   updateAllCategoryProductCounts BasicModel
     (fst (updateAllCategoryProductCounts BasicModel smallStore)) =
     (smallStore, \<lparr>totalCategories = 2, updated = 2\<rparr>) \<and>
   updateAllCategoryProductCounts CountingModel smallStore =
     (smallStore, \<lparr>totalCategories = 2, updated = 1\<rparr>)"
  by code_simp

lemma recalculateEach_result:
  "distinct (map c_id (before @ rest)) \<Longrightarrow> cats st = before @ rest \<Longrightarrow> prods st = prods s \<Longrightarrow>
   map eraseCounts (cats st) = map eraseCounts (cats s) \<Longrightarrow>
   \<forall>c\<in>set rest. calculateProductCount s (c_id c) True \<noteq> None \<Longrightarrow>
   \<exists>st' after.
     recalculateEach rest (st, n) =
       Some (st', n + length (filter (\<lambda>c. Some (c_productCountReal c) \<noteq> calculateProductCount s (c_id c) False \<or>
                                        Some (c_totalProductCount c) \<noteq> calculateProductCount s (c_id c) True) rest)) \<and>
     cats st' = before @ after \<and>
     list_all2 (\<lambda>c c'. \<exists>total. calculateProductCount s (c_id c) True = Some total \<and>
                  c' = c\<lparr>c_productCountReal := countByCategory s (c_id c),
                         c_totalProductCount := total\<rparr>) rest after \<and>
     prods st' = prods s"
proof (induction rest arbitrary: before st n)
  case Nil
  then show ?case by simp
next
  case (Cons c rest)
  obtain total where total: "calculateProductCount s (c_id c) True = Some total"
    using Cons.prems(5) by auto
  have direct: "calculateProductCount s (c_id c) False = Some (countByCategory s (c_id c))"
    by (simp add: calculateProductCount_def)
  have same: "calculateProductCount st (c_id c) b = calculateProductCount s (c_id c) b" for b
    using Cons.prems(3,4) by (rule calculateProductCount_erased [rotated])
  have "c_id c \<notin> set (map c_id before)" using Cons.prems(1) by simp
  then have fresh: "\<forall>b\<in>set before. c_id b \<noteq> c_id c" by (metis image_eqI set_map)
  let ?f = "\<lambda>d. d\<lparr>c_productCountReal := countByCategory s (c_id c), c_totalProductCount := total\<rparr>"
  have rest: "\<forall>c\<in>set rest. calculateProductCount s (c_id c) True \<noteq> None"
    using Cons.prems(5) by simp
  show ?case
  proof (cases "c_productCountReal c \<noteq> countByCategory s (c_id c) \<or> c_totalProductCount c \<noteq> total")
    case True
    let ?st1 = "findByIdAndUpdate (c_id c) ?f st"
    have cats1: "cats ?st1 = (before @ [?f c]) @ rest"
      using Cons.prems(2) fresh by (simp add: findByIdAndUpdate_def updateFirst_fresh)
    have d1: "distinct (map c_id ((before @ [?f c]) @ rest))" using Cons.prems(1) by simp
    have "map eraseCounts (cats ?st1) = map eraseCounts (cats st)"
      by (rule erased_update) (simp add: eraseCounts_def)
    then have e1: "map eraseCounts (cats ?st1) = map eraseCounts (cats s)"
      using Cons.prems(4) by simp
    have p1: "prods ?st1 = prods s" using Cons.prems(3) by simp
    from Cons.IH [OF d1 cats1 p1 e1 rest, of "Suc n"]
    obtain st' after where r:
      "recalculateEach rest (?st1, Suc n) =
         Some (st', Suc n + length (filter (\<lambda>c. Some (c_productCountReal c) \<noteq> calculateProductCount s (c_id c) False \<or>
                                        Some (c_totalProductCount c) \<noteq> calculateProductCount s (c_id c) True) rest))"
      "cats st' = (before @ [?f c]) @ after"
      "list_all2 (\<lambda>c c'. \<exists>total. calculateProductCount s (c_id c) True = Some total \<and>
                  c' = c\<lparr>c_productCountReal := countByCategory s (c_id c),
                         c_totalProductCount := total\<rparr>) rest after"
      "prods st' = prods s"
      by blast
    have run: "recalculateEach (c # rest) (st, n) = recalculateEach rest (?st1, Suc n)"
      using True total direct same [of True] same [of False] by simp
    show ?thesis
      apply (rule exI [of _ st'], rule exI [of _ "?f c # after"])
      using r run True total direct by simp
  next
    case False
    have cats1: "cats st = (before @ [c]) @ rest" using Cons.prems(2) by simp
    have d1: "distinct (map c_id ((before @ [c]) @ rest))" using Cons.prems(1) by simp
    from Cons.IH [OF d1 cats1 Cons.prems(3) Cons.prems(4) rest, of n]
    obtain st' after where r:
      "recalculateEach rest (st, n) =
         Some (st', n + length (filter (\<lambda>c. Some (c_productCountReal c) \<noteq> calculateProductCount s (c_id c) False \<or>
                                        Some (c_totalProductCount c) \<noteq> calculateProductCount s (c_id c) True) rest))"
      "cats st' = (before @ [c]) @ after"
      "list_all2 (\<lambda>c c'. \<exists>total. calculateProductCount s (c_id c) True = Some total \<and>
                  c' = c\<lparr>c_productCountReal := countByCategory s (c_id c),
                         c_totalProductCount := total\<rparr>) rest after"
      "prods st' = prods s"
      by blast
    have run: "recalculateEach (c # rest) (st, n) = recalculateEach rest (st, n)"
      using False total direct same [of True] same [of False] by simp
    have unchanged: "?f c = c" using False by simp
    show ?thesis
      apply (rule exI [of _ st'], rule exI [of _ "c # after"])
      using r run False total direct unchanged by simp
  qed
qed

lemma recalculateEach_stuck:
  "recalculateEach rest (st, n) = Some r \<Longrightarrow> map eraseCounts (cats st) = map eraseCounts (cats s) \<Longrightarrow>
   prods st = prods s \<Longrightarrow> c \<in> set rest \<Longrightarrow> calculateProductCount s (c_id c) True \<noteq> None"
proof (induction rest arbitrary: st n)
  case Nil
  then show ?case by simp
next
  case (Cons d rest)
  have same: "calculateProductCount st i b = calculateProductCount s i b" for i b
    using Cons.prems(3,2) by (rule calculateProductCount_erased [rotated])
  from Cons.prems(1) obtain total where total: "calculateProductCount s (c_id d) True = Some total"
    using same by (auto split: option.splits)
  show ?case
  proof (cases "c = d")
    case True
    then show ?thesis using total by simp
  next
    case False
    then have c: "c \<in> set rest" using Cons.prems(4) by simp
    let ?f = "\<lambda>x. x\<lparr>c_productCountReal := countByCategory s (c_id d), c_totalProductCount := total\<rparr>"
    let ?st1 = "findByIdAndUpdate (c_id d) ?f st"
    have "map eraseCounts (cats ?st1) = map eraseCounts (cats st)"
      by (rule erased_update) (simp add: eraseCounts_def)
    then have e1: "map eraseCounts (cats ?st1) = map eraseCounts (cats s)"
      using Cons.prems(2) by simp
    have p1: "prods ?st1 = prods s" using Cons.prems(3) by simp
    have t: "calculateProductCount st (c_id d) True = Some total"
      using total same by simp
    have f: "calculateProductCount st (c_id d) False = Some (countByCategory s (c_id d))"
      using same [of "c_id d" False] by (simp add: calculateProductCount_def)
    from Cons.prems(1)
    have "(\<exists>m. recalculateEach rest (?st1, m) = Some r) \<or> (\<exists>m. recalculateEach rest (st, m) = Some r)"
      by (simp add: t f split: if_splits) blast+
    then show ?thesis
      using Cons.IH [OF _ e1 p1 c] Cons.IH [OF _ Cons.prems(2) Cons.prems(3) c] by blast
  qed
qed


text \<open>
  C9, as the code has it. On a collection with unique ids, when \<open>calculateProductCount\<close>
  returns for every category, which is when its walk over the active children ends,
  \<open>updateAllProductCounts\<close> of the counting model visits every category: the summary's
  \<open>totalCategories\<close> is the number of categories, \<open>updated\<close> is the number of categories
  of which a stored count differs from the fresh one, which are the ones it writes, and
  afterwards every category holds its fresh counts and is otherwise as before. When the
  walk of some category does not end, it does not return. \<open>updateAllCategoryProductCounts\<close>
  of the server returns a summary whose \<open>totalCategories\<close> is the number of categories.
\<close>

theorem recompute_all:
  assumes ids: "distinct (map c_id (cats s))"
  shows "((\<forall>c\<in>set (cats s). calculateProductCount s (c_id c) True \<noteq> None) \<longrightarrow>
          (\<exists>s' sm.
             updateAllProductCounts s = Some (s', sm) \<and>
             totalCategories sm = length (cats s) \<and>
             updated sm =
               length (filter (\<lambda>c. Some (c_productCountReal c) \<noteq> calculateProductCount s (c_id c) False \<or>
                                    Some (c_totalProductCount c) \<noteq> calculateProductCount s (c_id c) True)
                         (cats s)) \<and>
             list_all2 (\<lambda>c c'. \<exists>total. calculateProductCount s (c_id c) True = Some total \<and>
                          c' = c\<lparr>c_productCountReal := countByCategory s (c_id c),
                                 c_totalProductCount := total\<rparr>) (cats s) (cats s') \<and>
             prods s' = prods s)) \<and>
         ((\<exists>c\<in>set (cats s). calculateProductCount s (c_id c) True = None) \<longrightarrow>
          updateAllProductCounts s = None) \<and>
         (\<exists>s' sm. updateAllCategoryProductCounts m s = (s', sm) \<and>
            totalCategories sm = length (cats s))"
proof (intro conjI impI)
  show "\<exists>s' sm. updateAllCategoryProductCounts m s = (s', sm) \<and>
            totalCategories sm = length (cats s)"
    by (simp add: server_recount_reports)
next
  assume all: "\<forall>c\<in>set (cats s). calculateProductCount s (c_id c) True \<noteq> None"
  from recalculateEach_result [of "[]" "cats s" s s 0] ids all
  obtain st' after where r:
    "recalculateEach (cats s) (s, 0) =
       Some (st', 0 + length (filter (\<lambda>c. Some (c_productCountReal c) \<noteq> calculateProductCount s (c_id c) False \<or>
                                        Some (c_totalProductCount c) \<noteq> calculateProductCount s (c_id c) True) (cats s)))"
    "cats st' = [] @ after"
    "list_all2 (\<lambda>c c'. \<exists>total. calculateProductCount s (c_id c) True = Some total \<and>
                  c' = c\<lparr>c_productCountReal := countByCategory s (c_id c),
                         c_totalProductCount := total\<rparr>) (cats s) after"
    "prods st' = prods s"
    by auto
  then show "\<exists>s' sm.
             updateAllProductCounts s = Some (s', sm) \<and>
             totalCategories sm = length (cats s) \<and>
             updated sm =
               length (filter (\<lambda>c. Some (c_productCountReal c) \<noteq> calculateProductCount s (c_id c) False \<or>
                                    Some (c_totalProductCount c) \<noteq> calculateProductCount s (c_id c) True)
                         (cats s)) \<and>
             list_all2 (\<lambda>c c'. \<exists>total. calculateProductCount s (c_id c) True = Some total \<and>
                          c' = c\<lparr>c_productCountReal := countByCategory s (c_id c),
                                 c_totalProductCount := total\<rparr>) (cats s) (cats s') \<and>
             prods s' = prods s"
    by (simp add: updateAllProductCounts_def)
next
  assume "\<exists>c\<in>set (cats s). calculateProductCount s (c_id c) True = None"
  then obtain c where c: "c \<in> set (cats s)" "calculateProductCount s (c_id c) True = None"
    by auto
  have "recalculateEach (cats s) (s, 0) = None"
  proof (cases "recalculateEach (cats s) (s, 0)")
    case None
    then show ?thesis .
  next
    case (Some r)
    from recalculateEach_stuck [OF Some _ _ c(1), of s] c(2) show ?thesis by simp
  qed
  then show "updateAllProductCounts s = None" by (simp add: updateAllProductCounts_def)
qed

theorem recompute_all_witness:
  "distinct (map c_id (cats smallStore)) \<and>
   list_all (\<lambda>c. calculateProductCount smallStore (c_id c) True \<noteq> None) (cats smallStore) \<and>
   updateAllProductCounts smallStore =
     Some (smallStore\<lparr>cats := [(mkCategory ''a'' ''Engine Parts'' None True)\<lparr>c_totalProductCount := 1\<rparr>,
                          (mkCategory ''b'' ''Pistons'' (Some ''a'') True)
                             \<lparr>c_productCountReal := 1, c_totalProductCount := 1\<rparr>]\<rparr>,
      \<lparr>totalCategories = 2, updated = 2\<rparr>) \<and>
   (\<exists>s' sm. updateAllProductCounts smallStore = Some (s', sm) \<and>
      totalCategories sm = length (cats smallStore) \<and> prods s' = prods smallStore) \<and>
   (\<exists>s' sm. updateAllCategoryProductCounts BasicModel smallStore = (s', sm) \<and>
      totalCategories sm = length (cats smallStore))"
proof -
  have ids: "distinct (map c_id (cats smallStore))" by code_simp
  have returns: "list_all (\<lambda>c. calculateProductCount smallStore (c_id c) True \<noteq> None) (cats smallStore)"
    by code_simp
  have model: "updateAllProductCounts smallStore =
     Some (smallStore\<lparr>cats := [(mkCategory ''a'' ''Engine Parts'' None True)\<lparr>c_totalProductCount := 1\<rparr>,
                          (mkCategory ''b'' ''Pistons'' (Some ''a'') True)
                             \<lparr>c_productCountReal := 1, c_totalProductCount := 1\<rparr>]\<rparr>,
      \<lparr>totalCategories = 2, updated = 2\<rparr>)"
    by code_simp
  note result = recompute_all [OF ids, of BasicModel]
  have all: "\<forall>c\<in>set (cats smallStore). calculateProductCount smallStore (c_id c) True \<noteq> None"
    using returns by (simp add: list_all_iff)
  have counting: "\<exists>s' sm. updateAllProductCounts smallStore = Some (s', sm) \<and>
      totalCategories sm = length (cats smallStore) \<and> prods s' = prods smallStore"
    using result all by blast
  have server: "\<exists>s' sm. updateAllCategoryProductCounts BasicModel smallStore = (s', sm) \<and>
      totalCategories sm = length (cats smallStore)"
    using result by blast
  show ?thesis using ids returns model counting server by blast
qed

text \<open>C9 as stated fails: on two active categories that are each other's parent
  \<open>updateAllProductCounts\<close> never returns, so there is no summary.\<close>

theorem recompute_all_on_cycle_never_returns:
  "parentOf cyclicStore ''a'' = Some (Some ''b'') \<and>
   parentOf cyclicStore ''b'' = Some (Some ''a'') \<and>
   map c_isActive (cats cyclicStore) = [True, True] \<and>
   calculateProductCount cyclicStore ''a'' True = None \<and>
   updateAllProductCounts cyclicStore = None"
proof -
  have links: "parentOf cyclicStore ''a'' = Some (Some ''b'')"
    "parentOf cyclicStore ''b'' = Some (Some ''a'')"
    "map c_isActive (cats cyclicStore) = [True, True]"
    by code_simp+
  have "getAllDescendantIds cyclicStore ''a'' = None"
    using cyclic_descend_never_returns [of cyclicStore "Visit ''a''"]
    by (cases "getAllDescendantIds cyclicStore ''a''") (auto simp: getAllDescendantIds_def)
  then have walk: "calculateProductCount cyclicStore ''a'' True = None"
    by (simp add: calculateProductCount_def)
  have a: "mkCategory ''a'' ''Brakes'' (Some ''b'') True \<in> set (cats cyclicStore)"
    "c_id (mkCategory ''a'' ''Brakes'' (Some ''b'') True) = ''a''"
    by (simp_all add: cyclicStore_def mkCategory_def)
  have "recalculateEach (cats cyclicStore) (cyclicStore, 0) = None"
  proof (cases "recalculateEach (cats cyclicStore) (cyclicStore, 0)")
    case None
    then show ?thesis .
  next
    case (Some r)
    from recalculateEach_stuck [OF Some _ _ a(1), of cyclicStore] walk a(2)
    show ?thesis by simp
  qed
  then have "updateAllProductCounts cyclicStore = None"
    by (simp add: updateAllProductCounts_def)
  then show ?thesis using links walk by simp
qed

section \<open>The subtree count\<close>

lemma activeBelow_step:
  "{d. activeBelow s i d} =
   (\<Union>ch\<in>set (map c_id (activeChildren s i)). insert ch {d. activeBelow s ch d})"
proof (rule set_eqI, rule iffI)
  fix d
  assume "d \<in> {d. activeBelow s i d}"
  then have "activeBelow s i d" by simp
  then show "d \<in> (\<Union>ch\<in>set (map c_id (activeChildren s i)). insert ch {d. activeBelow s ch d})"
    by (cases rule: activeBelow.cases) auto
next
  fix d
  assume "d \<in> (\<Union>ch\<in>set (map c_id (activeChildren s i)). insert ch {d. activeBelow s ch d})"
  then obtain c where c: "c \<in> set (activeChildren s i)" "d = c_id c \<or> activeBelow s (c_id c) d"
    by auto
  then show "d \<in> {d. activeBelow s i d}"
    by (auto intro: activeBelow.child activeBelow.deeper)
qed

lemma descend_reaches:
  "descend s w = Some y \<Longrightarrow>
   (case w of
      Visit i \<Rightarrow> set y = insert i {d. activeBelow s i d}
    | Loop children allIds \<Rightarrow>
        set y = set allIds \<union> (\<Union>ch\<in>set children. insert ch {d. activeBelow s ch d}))"
proof (induction s w y rule: descend.raw_induct [rotated 1, consumes 1, case_names step])
  case (step descend0 s w y)
  show ?case
  proof (cases w)
    case (Visit i)
    then have "descend0 s (Loop (map c_id (activeChildren s i)) [i]) = Some y"
      using step(2) by simp
    from step(1) [OF this]
    have "set y = {i} \<union> (\<Union>ch\<in>set (map c_id (activeChildren s i)). insert ch {d. activeBelow s ch d})"
      by simp
    then show ?thesis using Visit activeBelow_step [of s i] by simp
  next
    case (Loop children allIds)
    show ?thesis
    proof (cases children)
      case Nil
      then show ?thesis using Loop step(2) by auto
    next
      case (Cons child rest)
      then obtain childIds where c: "descend0 s (Visit child) = Some childIds"
        "descend0 s (Loop rest (allIds @ childIds)) = Some y"
        using Loop step(2) by (auto simp: bind_eq_Some_conv)
      from step(1) [OF c(1)] step(1) [OF c(2)]
      show ?thesis using Loop Cons by auto
    qed
  qed
qed

lemma walkEnds_descend:
  assumes "walkEnds s i"
  shows "\<exists>ids. descend s (Visit i) = Some ids"
  using assms
proof (induction)
  case (all i)
  have loop: "\<forall>ch\<in>set children. \<exists>ids. descend s (Visit ch) = Some ids \<Longrightarrow>
              \<exists>ids. descend s (Loop children acc) = Some ids" for children acc
  proof (induction children arbitrary: acc)
    case Nil
    then show ?case by (subst descend.simps) simp
  next
    case (Cons ch rest)
    then obtain childIds where "descend s (Visit ch) = Some childIds" by auto
    moreover obtain ids where "descend s (Loop rest (acc @ childIds)) = Some ids"
      using Cons by force
    ultimately show ?case by (subst descend.simps) simp
  qed
  have "\<forall>ch\<in>set (map c_id (activeChildren s i)). \<exists>ids. descend s (Visit ch) = Some ids"
    using all.IH by auto
  from loop [OF this, of "[i]"] show ?case by (subst descend.simps) simp
qed

lemma count_in_set:
  "finite A \<Longrightarrow>
   length (filter (\<lambda>p. (case p_category p of None \<Rightarrow> False | Some i \<Rightarrow> i \<in> A) \<and> p_isActive p) ps) =
   (\<Sum>d\<in>A. length (filter (\<lambda>p. p_category p = Some d \<and> p_isActive p) ps))"
proof (induction ps)
  case Nil
  then show ?case by simp
next
  case (Cons p ps)
  show ?case
  proof (cases "p_category p")
    case None
    then show ?thesis using Cons by simp
  next
    case (Some i)
    have "(\<Sum>d\<in>A. length (filter (\<lambda>p. p_category p = Some d \<and> p_isActive p) (p # ps))) =
          (\<Sum>d\<in>A. (if d = i \<and> p_isActive p then 1 else 0) +
                    length (filter (\<lambda>p. p_category p = Some d \<and> p_isActive p) ps))"
      using Some by (intro sum.cong) auto
    also have "\<dots> = (\<Sum>d\<in>A. if d = i \<and> p_isActive p then 1 else 0) +
                      (\<Sum>d\<in>A. length (filter (\<lambda>p. p_category p = Some d \<and> p_isActive p) ps))"
      by (simp add: sum.distrib)
    also have "(\<Sum>d\<in>A. if d = i \<and> p_isActive p then 1 else 0) =
               (if i \<in> A \<and> p_isActive p then 1 else (0::nat))"
      using Cons.prems by (cases "p_isActive p") (simp_all add: sum.delta)
    finally show ?thesis using Some Cons by simp
  qed
qed

lemma countByCategoryIn_sum:
  "countByCategoryIn s ids = (\<Sum>d\<in>set ids. countByCategory s d)"
  using count_in_set [of "set ids" "prods s"]
  by (simp add: countByCategoryIn_def countByCategory_def)


lemma descend_walkEnds:
  "descend s w = Some y \<Longrightarrow>
   (case w of Visit i \<Rightarrow> walkEnds s i
    | Loop children allIds \<Rightarrow> (\<forall>ch\<in>set children. walkEnds s ch))"
proof (induction s w y rule: descend.raw_induct [rotated 1, consumes 1, case_names step])
  case (step descend0 s w y)
  show ?case
  proof (cases w)
    case (Visit i)
    then have "descend0 s (Loop (map c_id (activeChildren s i)) [i]) = Some y"
      using step(2) by simp
    from step(1) [OF this]
    have children: "\<forall>ch\<in>set (map c_id (activeChildren s i)). walkEnds s ch"
      by simp
    have "walkEnds s i"
    proof (rule walkEnds.all)
      fix c
      assume "c \<in> set (activeChildren s i)"
      then show "walkEnds s (c_id c)" using children by simp
    qed
    then show ?thesis using Visit by simp
  next
    case (Loop children allIds)
    show ?thesis
    proof (cases children)
      case Nil
      then show ?thesis using Loop by simp
    next
      case (Cons child rest)
      then obtain childIds where c: "descend0 s (Visit child) = Some childIds"
        "descend0 s (Loop rest (allIds @ childIds)) = Some y"
        using Loop step(2) by (auto simp: bind_eq_Some_conv)
      from step(1) [OF c(1)] step(1) [OF c(2)]
      show ?thesis using Loop Cons by simp
    qed
  qed
qed

lemma activeChildren_distinct:
  "distinct (map c_id (cats s)) \<Longrightarrow> distinct (map c_id (activeChildren s i))"
  by (simp add: activeChildren_def distinct_map_filter)

text \<open>
  C1, as the code has it. For a category whose walk over active children ends, in a
  collection with unique ids, \<open>calculateProductCount\<close> with \<open>includeChildren\<close> reports
  the direct count of the category plus the sum of the direct counts of the categories
  reached from it through chains of active children, where the direct count of a category
  is the number of active products whose scalar \<open>category\<close> is its id: an inactive
  descendant and what is below it are left out. \<open>GET /api/categories\<close> computes a
  total only for a listed category that has an active child: the count of the category
  (the live count by \<open>categories\<close> with models/Category.js, the stored
  \<open>productCountReal\<close> with the counting model) plus the live counts by \<open>categories\<close> of
  its active children only. The walk returns exactly when it ends.
\<close>

theorem subtree_count_over_active_closure:
  assumes ends: "walkEnds s i" and ids: "distinct (map c_id (cats s))"
  shows "(\<exists>allIds.
            getAllDescendantIds s i = Some allIds \<and>
            set allIds = insert i {d. activeBelow s i d} \<and>
            calculateProductCount s i False = Some (countByCategory s i) \<and>
            calculateProductCount s i True =
              Some (countByCategory s i + (\<Sum>d\<in>{d. activeBelow s i d} - {i}. countByCategory s d))) \<and>
         treeTotalProductCount m s c =
           (if activeChildren s (c_id c) = []
            then (case m of BasicModel \<Rightarrow> None | CountingModel \<Rightarrow> Some (c_totalProductCount c))
            else Some ((case m of
                          BasicModel \<Rightarrow> countByCategories s (c_id c)
                        | CountingModel \<Rightarrow> c_productCountReal c) +
                       (\<Sum>d\<in>c_id ` set (activeChildren s (c_id c)). countByCategories s d))) \<and>
         (\<forall>j. (\<exists>allIds. getAllDescendantIds s j = Some allIds) \<longleftrightarrow> walkEnds s j)"
proof -
  from walkEnds_descend [OF ends] obtain allIds where run: "descend s (Visit i) = Some allIds"
    by blast
  from descend_reaches [OF run] have reach: "set allIds = insert i {d. activeBelow s i d}"
    by simp
  then have fin: "finite (insert i {d. activeBelow s i d})" by (metis List.finite_set)
  have "countByCategoryIn s allIds = (\<Sum>d\<in>insert i {d. activeBelow s i d}. countByCategory s d)"
    using countByCategoryIn_sum [of s allIds] reach by simp
  also have "\<dots> = countByCategory s i +
      (\<Sum>d\<in>insert i {d. activeBelow s i d} - {i}. countByCategory s d)"
    using fin by (rule sum.remove) simp
  also have "insert i {d. activeBelow s i d} - {i} = {d. activeBelow s i d} - {i}" by auto
  finally have total: "countByCategoryIn s allIds =
      countByCategory s i + (\<Sum>d\<in>{d. activeBelow s i d} - {i}. countByCategory s d)" .
  have first: "\<exists>allIds.
            getAllDescendantIds s i = Some allIds \<and>
            set allIds = insert i {d. activeBelow s i d} \<and>
            calculateProductCount s i False = Some (countByCategory s i) \<and>
            calculateProductCount s i True =
              Some (countByCategory s i + (\<Sum>d\<in>{d. activeBelow s i d} - {i}. countByCategory s d))"
    using run reach total by (simp add: getAllDescendantIds_def calculateProductCount_def)
  have "sum_list (map (countByCategories s) (map c_id (activeChildren s (c_id c)))) =
        (\<Sum>d\<in>set (map c_id (activeChildren s (c_id c))). countByCategories s d)"
    using activeChildren_distinct [OF ids] by (rule sum_list_distinct_conv_sum_set)
  then have second: "treeTotalProductCount m s c =
           (if activeChildren s (c_id c) = []
            then (case m of BasicModel \<Rightarrow> None | CountingModel \<Rightarrow> Some (c_totalProductCount c))
            else Some ((case m of
                          BasicModel \<Rightarrow> countByCategories s (c_id c)
                        | CountingModel \<Rightarrow> c_productCountReal c) +
                       (\<Sum>d\<in>c_id ` set (activeChildren s (c_id c)). countByCategories s d)))"
    by (cases m)
      (simp_all add: treeTotalProductCount_def listedProductCount_def virtualProductCount_def comp_def)
  have third: "(\<exists>allIds. getAllDescendantIds s j = Some allIds) \<longleftrightarrow> walkEnds s j" for j
  proof
    assume "\<exists>allIds. getAllDescendantIds s j = Some allIds"
    then obtain js where "descend s (Visit j) = Some js"
      by (auto simp: getAllDescendantIds_def)
    from descend_walkEnds [OF this] show "walkEnds s j" by simp
  next
    assume "walkEnds s j"
    from walkEnds_descend [OF this] show "\<exists>allIds. getAllDescendantIds s j = Some allIds"
      by (simp add: getAllDescendantIds_def)
  qed
  show ?thesis
  proof (intro conjI allI)
    show "\<exists>allIds.
            getAllDescendantIds s i = Some allIds \<and>
            set allIds = insert i {d. activeBelow s i d} \<and>
            calculateProductCount s i False = Some (countByCategory s i) \<and>
            calculateProductCount s i True =
              Some (countByCategory s i + (\<Sum>d\<in>{d. activeBelow s i d} - {i}. countByCategory s d))"
      by (rule first)
    show "treeTotalProductCount m s c =
           (if activeChildren s (c_id c) = []
            then (case m of BasicModel \<Rightarrow> None | CountingModel \<Rightarrow> Some (c_totalProductCount c))
            else Some ((case m of
                          BasicModel \<Rightarrow> countByCategories s (c_id c)
                        | CountingModel \<Rightarrow> c_productCountReal c) +
                       (\<Sum>d\<in>c_id ` set (activeChildren s (c_id c)). countByCategories s d)))"
      by (rule second)
    show "(\<exists>allIds. getAllDescendantIds s j = Some allIds) \<longleftrightarrow> walkEnds s j" for j
      by (rule third)
  qed
qed

theorem subtree_count_over_active_closure_witness:
  "walkEnds smallStore ''a'' \<and> distinct (map c_id (cats smallStore)) \<and>
   getAllDescendantIds smallStore ''a'' = Some [''a'', ''b''] \<and>
   calculateProductCount smallStore ''a'' True = Some 1 \<and>
   (\<exists>allIds. getAllDescendantIds smallStore ''a'' = Some allIds \<and>
      set allIds = insert ''a'' {d. activeBelow smallStore ''a'' d} \<and>
      calculateProductCount smallStore ''a'' True =
        Some (countByCategory smallStore ''a'' +
              (\<Sum>d\<in>{d. activeBelow smallStore ''a'' d} - {''a''}. countByCategory smallStore d)))"
proof -
  have a: "activeChildren smallStore ''a'' = [mkCategory ''b'' ''Pistons'' (Some ''a'') True]"
    and b: "activeChildren smallStore ''b'' = []"
    and idb: "c_id (mkCategory ''b'' ''Pistons'' (Some ''a'') True) = ''b''"
    by code_simp+
  have leaf: "walkEnds smallStore ''b''" by (rule walkEnds.all) (simp add: b)
  have ends: "walkEnds smallStore ''a''"
  proof (rule walkEnds.all)
    fix c
    assume "c \<in> set (activeChildren smallStore ''a'')"
    then show "walkEnds smallStore (c_id c)" using leaf by (simp add: a idb)
  qed
  have ids: "distinct (map c_id (cats smallStore))" by code_simp
  have run: "getAllDescendantIds smallStore ''a'' = Some [''a'', ''b'']"
    "calculateProductCount smallStore ''a'' True = Some 1"
    by code_simp+
  from subtree_count_over_active_closure [OF ends ids]
  have "\<exists>allIds. getAllDescendantIds smallStore ''a'' = Some allIds \<and>
      set allIds = insert ''a'' {d. activeBelow smallStore ''a'' d} \<and>
      calculateProductCount smallStore ''a'' False = Some (countByCategory smallStore ''a'') \<and>
      calculateProductCount smallStore ''a'' True =
        Some (countByCategory smallStore ''a'' +
              (\<Sum>d\<in>{d. activeBelow smallStore ''a'' d} - {''a''}. countByCategory smallStore d))"
    by (rule conjunct1)
  then obtain allIds where closure:
    "getAllDescendantIds smallStore ''a'' = Some allIds \<and>
      set allIds = insert ''a'' {d. activeBelow smallStore ''a'' d} \<and>
      calculateProductCount smallStore ''a'' True =
        Some (countByCategory smallStore ''a'' +
              (\<Sum>d\<in>{d. activeBelow smallStore ''a'' d} - {''a''}. countByCategory smallStore d))"
    by auto
  show ?thesis
    using ends ids run
    by (intro conjI exI [of _ allIds]) (insert closure, simp_all)
qed

text \<open>C1 as stated fails: the product of an inactive child is in the closure that the
  specification describes and in neither reported total, and the product of a grandchild
  is not in the total of the list route, which computes no total at all for a category
  without an active child.\<close>

theorem subtree_count_skips_inactive_and_deep:
  "descendantIds_spec inactiveChildStore ''a'' = [''b''] \<and>
   countByCategories inactiveChildStore ''a'' = 0 \<and>
   countByCategories inactiveChildStore ''b'' = 1 \<and>
   countByCategory inactiveChildStore ''b'' = 1 \<and>
   subtreeProductCount_spec inactiveChildStore ''a'' = 1 \<and>
   calculateProductCount inactiveChildStore ''a'' True = Some 0 \<and>
   treeTotalProductCount BasicModel inactiveChildStore (mkCategory ''a'' ''Engine Parts'' None True) = None \<and>
   treeTotalProductCount CountingModel inactiveChildStore (mkCategory ''a'' ''Engine Parts'' None True) =
     Some 0 \<and>
   descendantIds_spec deepStore ''a'' = [''b'', ''c''] \<and>
   subtreeProductCount_spec deepStore ''a'' = 1 \<and>
   treeTotalProductCount BasicModel deepStore (mkCategory ''a'' ''Engine Parts'' None True) = Some 0 \<and>
   treeTotalProductCount CountingModel deepStore (mkCategory ''a'' ''Engine Parts'' None True) = Some 0"
  by code_simp

text \<open>The total of the list route on a root and its child that hold a product each: with
  models/Category.js both live counts, with the counting model the stored
  \<open>productCountReal\<close> of the root and the live count of the child.\<close>

lemma list_route_total_example:
  "treeTotalProductCount BasicModel familyStore (mkCategory ''a'' ''Engine Parts'' None True) = Some 2 \<and>
   treeTotalProductCount CountingModel familyStore (mkCategory ''a'' ''Engine Parts'' None True) = Some 1 \<and>
   treeTotalProductCount BasicModel familyStore (mkCategory ''b'' ''Pistons'' (Some ''a'') True) = None"
  by code_simp

section \<open>Deleting a category\<close>



lemma prods_deleteOne [simp]: "prods (deleteOne i s) = prods s"
  by (simp add: deleteOne_def)

lemma countByCategories_prods: "prods s' = prods s \<Longrightarrow> countByCategories s' = countByCategories s"
  by (rule ext) (simp add: countByCategories_def)

lemma updateProductCount_result:
  assumes run: "updateProductCount env s p = Some s'"
  shows "prods s' = prods s \<and> map eraseCounts (cats s') = map eraseCounts (cats s) \<and>
         (p \<noteq> [] \<and> ObjectId_isValid env p \<longrightarrow>
            (\<forall>c. findCategoryById s' p = Some c \<longrightarrow>
               Some (c_productCountReal c) = calculateProductCount s' p False \<and>
               Some (c_totalProductCount c) = calculateProductCount s' p True))"
proof (cases "p = [] \<or> \<not> ObjectId_isValid env p")
  case True
  then have "s' = s" using run by (simp add: updateProductCount_def)
  then show ?thesis using True by auto
next
  case False
  from run False obtain total where total: "calculateProductCount s p True = Some total"
    by (auto simp: updateProductCount_def split: option.splits)
  have direct: "calculateProductCount s p False = Some (countByCategory s p)"
    by (simp add: calculateProductCount_def)
  let ?f = "\<lambda>c. c\<lparr>c_productCountReal := countByCategory s p, c_totalProductCount := total\<rparr>"
  have s': "s' = findByIdAndUpdate p ?f s"
    using run False total direct by (simp add: updateProductCount_def)
  have erased: "map eraseCounts (cats s') = map eraseCounts (cats s)"
    unfolding s' by (rule erased_update) (simp add: eraseCounts_def)
  have prods: "prods s' = prods s" by (simp add: s')
  have same: "calculateProductCount s' p b = calculateProductCount s p b" for b
    using erased prods by (rule calculateProductCount_erased)
  have found: "findCategoryById s' p = map_option ?f (findCategoryById s p)"
    unfolding s' by (simp add: findCategoryById_update)
  have "findCategoryById s' p = Some c \<Longrightarrow>
        Some (c_productCountReal c) = calculateProductCount s' p False \<and>
        Some (c_totalProductCount c) = calculateProductCount s' p True" for c
    using found same total direct by auto
  then show ?thesis using erased prods by blast
qed












section \<open>Creating a category\<close>



lemma plainNames_regex:
  "RegExp_i plainNames (''^'' @ x @ ''$'') = Some (\<lambda>t. toLowerCase t = toLowerCase x)"
  by (simp add: plainNames_def)




section \<open>Moving a category: the guards\<close>

lemma toString_Stored [simp]: "toString (Stored i) = i"
  by (simp add: toString_def)

lemma toString_Requested [simp]: "toString (Requested x) = x"
  by (simp add: toString_def)

lemma findById_Stored [simp]: "Category_findById env s (Stored i) = Inr (findCategoryById s i)"
  by (simp add: Category_findById_def)

lemma findById_Requested:
  "ObjectId_cast env x = Some i \<Longrightarrow> Category_findById env s (Requested x) = Inr (findCategoryById s i)"
  by (simp add: Category_findById_def)

text \<open>One round of the loop on an ObjectId, and on a request string that is spelled as the
  ObjectId it casts to.\<close>

lemma walk_stored:
  "ancestorWalk env s i (Stored cur) =
     (if cur = [] then Some (Inr False)
      else if cur = i then Some (Inr True)
      else
        (case findCategoryById s cur of
           None \<Rightarrow> Some (Inr False)
         | Some parentCat \<Rightarrow>
             (case c_parentCategory parentCat of
                None \<Rightarrow> Some (Inr False)
              | Some next \<Rightarrow> ancestorWalk env s i (Stored next))))"
  by (subst ancestorWalk.simps) simp

lemma walk_requested:
  assumes "ObjectId_cast env p = Some p"
  shows "ancestorWalk env s i (Requested p) = ancestorWalk env s i (Stored p)"
proof -
  have "ancestorWalk env s i (Requested p) =
     (if p = [] then Some (Inr False)
      else if p = i then Some (Inr True)
      else
        (case findCategoryById s p of
           None \<Rightarrow> Some (Inr False)
         | Some parentCat \<Rightarrow>
             (case c_parentCategory parentCat of
                None \<Rightarrow> Some (Inr False)
              | Some next \<Rightarrow> ancestorWalk env s i (Stored next))))"
    using assms by (subst ancestorWalk.simps) (simp add: findById_Requested)
  then show ?thesis by (simp only: walk_stored [of env s i p])
qed

lemma walkMeets_returns_true:
  assumes "walkMeets s i cur"
  shows "ancestorWalk env s i (Stored cur) = Some (Inr True)"
  using assms
proof (induction)
  case (here cur)
  then show ?case by (subst walk_stored) simp
next
  case (above cur nxt)
  then obtain c where "findCategoryById s cur = Some c" "c_parentCategory c = Some nxt"
    by (auto simp: parentOf_def)
  then show ?case using above by (subst walk_stored) simp
qed

lemma walk_result:
  "ancestorWalk env s i r = Some x \<Longrightarrow> r = Stored cur \<Longrightarrow>
   (x = Inr True \<and> walkMeets s i cur) \<or> (x = Inr False \<and> chainEnds (\<lambda>i. True) (parentOf s) cur)"
proof (induction env s i r x arbitrary: cur
    rule: ancestorWalk.raw_induct [rotated 1, consumes 1, case_names step])
  case (step walk env s i r x)
  show ?case
  proof (cases "cur = []")
    case True
    then have "x = Inr False" using step(2,3) by simp
    moreover have "chainEnds (\<lambda>i. True) (parentOf s) cur" using True by (simp add: chainEnds.stops)
    ultimately show ?thesis by simp
  next
    case False
    show ?thesis
    proof (cases "cur = i")
      case True
      then have "x = Inr True" using step(2,3) False by simp
      moreover have "walkMeets s i cur" using True False by (simp add: walkMeets.here)
      ultimately show ?thesis by simp
    next
      case apart: False
      show ?thesis
      proof (cases "parentOf s cur")
        case None
        then have "x = Inr False" using step(2,3) False apart by (simp add: parentOf_def)
        moreover have "chainEnds (\<lambda>i. True) (parentOf s) cur" using None by (simp add: chainEnds.stops)
        ultimately show ?thesis by simp
      next
        case (Some up)
        then obtain c where c: "findCategoryById s cur = Some c" "c_parentCategory c = up"
          by (auto simp: parentOf_def)
        show ?thesis
        proof (cases up)
          case None
          then have "x = Inr False" using step(2,3) False apart c by simp
          moreover have "chainEnds (\<lambda>i. True) (parentOf s) cur"
            using Some None by (simp add: chainEnds.stops)
          ultimately show ?thesis by simp
        next
          case (Some nxt)
          then have "walk env s i (Stored nxt) = Some x" using step(2,3) False apart c by simp
          from step(1) [OF this refl]
          have ih: "(x = Inr True \<and> walkMeets s i nxt) \<or>
              (x = Inr False \<and> chainEnds (\<lambda>i. True) (parentOf s) nxt)" .
          have up: "parentOf s cur = Some (Some nxt)" using c Some by (simp add: parentOf_def)
          from ih show ?thesis
          proof
            assume "x = Inr True \<and> walkMeets s i nxt"
            then show ?thesis using False up by (auto intro: walkMeets.above)
          next
            assume "x = Inr False \<and> chainEnds (\<lambda>i. True) (parentOf s) nxt"
            then show ?thesis using up by (auto intro: chainEnds.climbs)
          qed
        qed
      qed
    qed
  qed
qed

lemma true_walkMeets:
  "ancestorWalk env s i (Stored cur) = Some (Inr True) \<Longrightarrow> walkMeets s i cur"
  using walk_result [of env s i "Stored cur" "Inr True" cur] by simp

lemma chainEnds_returns_false:
  assumes "chainEnds valid par cur"
  shows "valid = (\<lambda>i. True) \<Longrightarrow> par = parentOf s \<Longrightarrow> \<not> walkMeets s i cur \<Longrightarrow>
         ancestorWalk env s i (Stored cur) = Some (Inr False)"
  using assms
proof (induction)
  case (stops cur)
  show ?case
  proof (cases "cur = []")
    case True
    then show ?thesis by (subst walk_stored) simp
  next
    case False
    then have ne: "cur \<noteq> i" using stops(4) by (auto intro: walkMeets.here)
    have "parentOf s cur = None \<or> parentOf s cur = Some None"
      using stops(1,2,3) False by auto
    then show ?thesis using False ne
      by (subst walk_stored) (auto simp: parentOf_def split: option.splits)
  qed
next
  case (climbs cur p)
  show ?case
  proof (cases "cur = []")
    case True
    then show ?thesis by (subst walk_stored) simp
  next
    case False
    then have ne: "cur \<noteq> i" using climbs.prems(3) by (auto intro: walkMeets.here)
    have up: "parentOf s cur = Some (Some p)" using climbs by simp
    then have "\<not> walkMeets s i p" using climbs.prems(3) False by (auto intro: walkMeets.above)
    then have "ancestorWalk env s i (Stored p) = Some (Inr False)" using climbs by simp
    moreover obtain c where "findCategoryById s cur = Some c" "c_parentCategory c = Some p"
      using up by (auto simp: parentOf_def)
    ultimately show ?thesis using False ne by (subst walk_stored) simp
  qed
qed

lemma walk_never_leaves:
  assumes "\<not> walkMeets s i cur" "\<not> chainEnds (\<lambda>i. True) (parentOf s) cur"
  shows "ancestorWalk env s i (Stored cur) = None"
proof (cases "ancestorWalk env s i (Stored cur)")
  case None
  then show ?thesis .
next
  case (Some x)
  from walk_result [OF Some refl] assms show ?thesis by simp
qed

lemma walkMeets_nonempty: "walkMeets s i cur \<Longrightarrow> cur \<noteq> []"
  by (cases rule: walkMeets.cases) auto

text \<open>\<open>moveCategory\<close> for a request that spells both ids as the ObjectIds they cast to.\<close>

lemma moveCategory_spelled:
  assumes "ObjectId_cast env i = Some i" "ObjectId_cast env p = Some p" "p \<noteq> []"
    and "ObjectId_isValid env i" "findCategoryById s i = Some category"
  shows "moveCategory env m s i (Text p) =
     (if \<not> ObjectId_isValid env p then Some (Inl InvalidId)
      else if findCategoryById s p = None then Some (Inl ParentNotFound)
      else if p = i then Some (Inl SelfParent)
      else
        (case ancestorWalk env s i (Stored p) of
           None \<Rightarrow> None
         | Some (Inl e) \<Rightarrow> Some (Inl ServerError)
         | Some (Inr True) \<Rightarrow> Some (Inl CircularReference)
         | Some (Inr False) \<Rightarrow>
             (case RegExp_i env (''^'' @ c_name category @ ''$'') of
                None \<Rightarrow> Some (Inl ServerError)
              | Some matches \<Rightarrow>
                  if list_ex (\<lambda>c. matches (c_name c) \<and> c_parentCategory c = Some p \<and> c_id c \<noteq> i) (cats s)
                  then Some (Inl DuplicateSiblingName)
                  else serverErrorOf (saveCategory env m s (category\<lparr>c_parentCategory := Some p\<rparr>)))))"
  using assms by (simp add: moveCategory_def walk_requested)

lemma serverErrorOf_errors:
  "serverErrorOf r = Some (Inl e) \<Longrightarrow> e = ServerError"
  by (auto simp: serverErrorOf_def split: option.splits sum.splits)

text \<open>
  C4, as the code has it, for a request on an existing category with a valid id and a
  new parent that is a valid id of an existing category, both ids spelled as the
  ObjectIds they cast to. The move fails with \<open>SelfParent\<close> when the new parent is the
  category itself; with \<open>CircularReference\<close> exactly when the walk up from the new parent
  meets the category. When the parent chain of the new parent ends without meeting the
  category, the move fails with \<open>DuplicateSiblingName\<close> exactly when the regular
  expression built from the name of the category is accepted and another category under
  the new parent matches it; for a name whose expression tests equality up to case,
  that is exactly when another category under the new parent has the name up to case.
  When the parent chain of the new parent neither ends nor meets the category, the move
  never answers.
\<close>

theorem move_guards:
  assumes valid: "ObjectId_isValid env i" and found: "findCategoryById s i = Some category"
    and target: "ObjectId_isValid env p" "p \<noteq> []" "findCategoryById s p \<noteq> None"
    and spelled: "ObjectId_cast env i = Some i" "ObjectId_cast env p = Some p"
  shows "(i \<noteq> [] \<longrightarrow> moveCategory env m s i (Text i) = Some (Inl SelfParent)) \<and>
         (moveCategory env m s i (Text p) = Some (Inl CircularReference) \<longleftrightarrow>
            p \<noteq> i \<and> walkMeets s i p) \<and>
         (p \<noteq> i \<and> chainEnds (\<lambda>i. True) (parentOf s) p \<and> \<not> walkMeets s i p \<longrightarrow>
            (moveCategory env m s i (Text p) = Some (Inl DuplicateSiblingName) \<longleftrightarrow>
               (\<exists>matches. RegExp_i env (''^'' @ c_name category @ ''$'') = Some matches \<and>
                  (\<exists>c\<in>set (cats s). c_id c \<noteq> i \<and> c_parentCategory c = Some p \<and>
                                     matches (c_name c))))) \<and>
         (p \<noteq> i \<and> chainEnds (\<lambda>i. True) (parentOf s) p \<and> \<not> walkMeets s i p \<and>
          RegExp_i env (''^'' @ c_name category @ ''$'') =
            Some (\<lambda>subject. toLowerCase subject = toLowerCase (c_name category)) \<longrightarrow>
            (moveCategory env m s i (Text p) = Some (Inl DuplicateSiblingName) \<longleftrightarrow>
               (\<exists>c\<in>set (cats s). c_id c \<noteq> i \<and> c_parentCategory c = Some p \<and>
                                  toLowerCase (c_name c) = toLowerCase (c_name category)))) \<and>
         (p \<noteq> i \<and> \<not> chainEnds (\<lambda>i. True) (parentOf s) p \<and> \<not> walkMeets s i p \<longrightarrow>
            moveCategory env m s i (Text p) = None)"
proof -
  note move = moveCategory_spelled [OF spelled target(2) valid found, of m]
  have save: "serverErrorOf r \<noteq> Some (Inl CircularReference)"
    "serverErrorOf r \<noteq> Some (Inl DuplicateSiblingName)" for r
    using serverErrorOf_errors [of r] by auto
  have self: "i \<noteq> [] \<longrightarrow> moveCategory env m s i (Text i) = Some (Inl SelfParent)"
    using moveCategory_spelled [OF spelled(1) spelled(1) _ valid found, of m] valid found by simp
  have circular: "moveCategory env m s i (Text p) = Some (Inl CircularReference) \<longleftrightarrow>
      p \<noteq> i \<and> walkMeets s i p"
  proof
    assume r: "moveCategory env m s i (Text p) = Some (Inl CircularReference)"
    then have "p \<noteq> i" using move target by auto
    moreover from this r have "ancestorWalk env s i (Stored p) = Some (Inr True)"
      using move target save(1)
      by (auto split: option.splits sum.splits bool.splits if_splits)
    ultimately show "p \<noteq> i \<and> walkMeets s i p" using true_walkMeets by blast
  next
    assume "p \<noteq> i \<and> walkMeets s i p"
    then have "p \<noteq> i" "ancestorWalk env s i (Stored p) = Some (Inr True)"
      using walkMeets_returns_true by auto
    then show "moveCategory env m s i (Text p) = Some (Inl CircularReference)"
      using move target by simp
  qed
  have duplicate: "p \<noteq> i \<and> chainEnds (\<lambda>i. True) (parentOf s) p \<and> \<not> walkMeets s i p \<longrightarrow>
            (moveCategory env m s i (Text p) = Some (Inl DuplicateSiblingName) \<longleftrightarrow>
               (\<exists>matches. RegExp_i env (''^'' @ c_name category @ ''$'') = Some matches \<and>
                  (\<exists>c\<in>set (cats s). c_id c \<noteq> i \<and> c_parentCategory c = Some p \<and>
                                     matches (c_name c))))"
  proof
    assume a: "p \<noteq> i \<and> chainEnds (\<lambda>i. True) (parentOf s) p \<and> \<not> walkMeets s i p"
    have walk: "ancestorWalk env s i (Stored p) = Some (Inr False)"
      using a chainEnds_returns_false [of "\<lambda>i. True" "parentOf s" p s i env] by simp
    show "moveCategory env m s i (Text p) = Some (Inl DuplicateSiblingName) \<longleftrightarrow>
               (\<exists>matches. RegExp_i env (''^'' @ c_name category @ ''$'') = Some matches \<and>
                  (\<exists>c\<in>set (cats s). c_id c \<noteq> i \<and> c_parentCategory c = Some p \<and>
                                     matches (c_name c)))"
    proof (cases "RegExp_i env (''^'' @ c_name category @ ''$'')")
      case None
      then have "moveCategory env m s i (Text p) = Some (Inl ServerError)"
        using move target a walk by simp
      then show ?thesis using None by simp
    next
      case (Some matches)
      let ?dup = "list_ex (\<lambda>c. matches (c_name c) \<and> c_parentCategory c = Some p \<and> c_id c \<noteq> i) (cats s)"
      have "moveCategory env m s i (Text p) =
          (if ?dup then Some (Inl DuplicateSiblingName)
           else serverErrorOf (saveCategory env m s (category\<lparr>c_parentCategory := Some p\<rparr>)))"
        using move target a walk Some by simp
      then have "moveCategory env m s i (Text p) = Some (Inl DuplicateSiblingName) \<longleftrightarrow> ?dup"
        using save(2) by (auto split: if_splits)
      then show ?thesis using Some by (auto simp: list_ex_iff)
    qed
  qed
  have plain: "p \<noteq> i \<and> chainEnds (\<lambda>i. True) (parentOf s) p \<and> \<not> walkMeets s i p \<and>
          RegExp_i env (''^'' @ c_name category @ ''$'') =
            Some (\<lambda>subject. toLowerCase subject = toLowerCase (c_name category)) \<longrightarrow>
            (moveCategory env m s i (Text p) = Some (Inl DuplicateSiblingName) \<longleftrightarrow>
               (\<exists>c\<in>set (cats s). c_id c \<noteq> i \<and> c_parentCategory c = Some p \<and>
                                  toLowerCase (c_name c) = toLowerCase (c_name category)))"
    using duplicate by auto
  have never: "p \<noteq> i \<and> \<not> chainEnds (\<lambda>i. True) (parentOf s) p \<and> \<not> walkMeets s i p \<longrightarrow>
            moveCategory env m s i (Text p) = None"
  proof
    assume a: "p \<noteq> i \<and> \<not> chainEnds (\<lambda>i. True) (parentOf s) p \<and> \<not> walkMeets s i p"
    have "ancestorWalk env s i (Stored p) = None" using a by (simp add: walk_never_leaves)
    then show "moveCategory env m s i (Text p) = None" using move target a by simp
  qed
  show ?thesis by (intro conjI; fact)
qed

theorem move_guards_witness:
  "ObjectId_isValid plainNames ''d'' \<and>
   findCategoryById siblingStore ''d'' = Some (mkCategory ''d'' ''pistons'' None True) \<and>
   ObjectId_isValid plainNames ''a'' \<and> findCategoryById siblingStore ''a'' \<noteq> None \<and>
   ObjectId_cast plainNames ''d'' = Some ''d'' \<and> ObjectId_cast plainNames ''a'' = Some ''a'' \<and>
   chainEnds (\<lambda>i. True) (parentOf siblingStore) ''a'' \<and> \<not> walkMeets siblingStore ''d'' ''a'' \<and>
   (\<exists>c\<in>set (cats siblingStore). c_id c \<noteq> ''d'' \<and> c_parentCategory c = Some ''a'' \<and>
      toLowerCase (c_name c) = toLowerCase ''pistons'') \<and>
   moveCategory plainNames CountingModel siblingStore ''d'' (Text ''a'') =
     Some (Inl DuplicateSiblingName) \<and>
   moveCategory plainNames CountingModel siblingStore ''d'' (Text ''d'') = Some (Inl SelfParent) \<and>
   moveCategory plainNames CountingModel deepStore ''a'' (Text ''c'') =
     Some (Inl CircularReference)"
proof -
  have valid: "ObjectId_isValid plainNames ''d''" "ObjectId_isValid plainNames ''a''"
    by (simp_all add: plainNames_def)
  have spelled: "ObjectId_cast plainNames ''d'' = Some ''d''" "ObjectId_cast plainNames ''a'' = Some ''a''"
    by (simp_all add: plainNames_def)
  have found: "findCategoryById siblingStore ''d'' = Some (mkCategory ''d'' ''pistons'' None True)"
    by code_simp
  have target: "''a'' \<noteq> []" "findCategoryById siblingStore ''a'' \<noteq> None"
    by code_simp+
  have root: "parentOf siblingStore ''a'' = Some None" by code_simp
  then have chain: "chainEnds (\<lambda>i. True) (parentOf siblingStore) ''a''"
    by (simp add: chainEnds.stops)
  have apart: "\<not> walkMeets siblingStore ''d'' ''a''"
  proof
    assume "walkMeets siblingStore ''d'' ''a''"
    then show False using root by (cases rule: walkMeets.cases) auto
  qed
  have name: "c_name (mkCategory ''d'' ''pistons'' None True) = ''pistons''"
    by (simp add: mkCategory_def)
  have regex: "RegExp_i plainNames (''^'' @ c_name (mkCategory ''d'' ''pistons'' None True) @ ''$'') =
      Some (\<lambda>subject. toLowerCase subject = toLowerCase (c_name (mkCategory ''d'' ''pistons'' None True)))"
    by (rule plainNames_regex)
  have "list_ex (\<lambda>c. c_id c \<noteq> ''d'' \<and> c_parentCategory c = Some ''a'' \<and>
      toLowerCase (c_name c) = toLowerCase ''pistons'') (cats siblingStore)"
    by code_simp
  then have sibling: "\<exists>c\<in>set (cats siblingStore). c_id c \<noteq> ''d'' \<and> c_parentCategory c = Some ''a'' \<and>
      toLowerCase (c_name c) = toLowerCase ''pistons''"
    by (simp add: list_ex_iff)
  have others: "moveCategory plainNames CountingModel siblingStore ''d'' (Text ''d'') = Some (Inl SelfParent)"
    "moveCategory plainNames CountingModel deepStore ''a'' (Text ''c'') = Some (Inl CircularReference)"
    by code_simp+
  have differ: "''a'' \<noteq> ''d''" by simp
  from move_guards [OF valid(1) found valid(2) target spelled, of CountingModel]
  have "moveCategory plainNames CountingModel siblingStore ''d'' (Text ''a'') = Some (Inl DuplicateSiblingName) \<longleftrightarrow>
      (\<exists>c\<in>set (cats siblingStore). c_id c \<noteq> ''d'' \<and> c_parentCategory c = Some ''a'' \<and>
         toLowerCase (c_name c) = toLowerCase (c_name (mkCategory ''d'' ''pistons'' None True)))"
    using differ chain apart regex by blast
  then have "moveCategory plainNames CountingModel siblingStore ''d'' (Text ''a'') =
     Some (Inl DuplicateSiblingName)"
    using sibling name by simp
  then show ?thesis using valid spelled found target chain apart sibling others by blast
qed

lemma cyclic_ancestors_never_end:
  assumes "chainEnds valid par i"
  shows "valid = (\<lambda>i. True) \<Longrightarrow> par = parentOf cyclicAncestorsStore \<Longrightarrow> i = ''x'' \<or> i = ''y'' \<Longrightarrow> False"
  using assms
proof (induction)
  case (stops i)
  have "parentOf cyclicAncestorsStore ''x'' = Some (Some ''y'')"
    "parentOf cyclicAncestorsStore ''y'' = Some (Some ''x'')"
    by code_simp+
  then show ?case using stops by auto
next
  case (climbs i p)
  have "parentOf cyclicAncestorsStore ''x'' = Some (Some ''y'')"
    "parentOf cyclicAncestorsStore ''y'' = Some (Some ''x'')"
    by code_simp+
  then show ?case using climbs by auto
qed

lemma cyclic_ancestors_never_meet:
  assumes "walkMeets s i cur"
  shows "s = cyclicAncestorsStore \<Longrightarrow> i = ''b'' \<Longrightarrow> cur = ''x'' \<or> cur = ''y'' \<Longrightarrow> False"
  using assms
proof (induction)
  case (here cur)
  then show ?case by auto
next
  case (above cur nxt)
  have "parentOf cyclicAncestorsStore ''x'' = Some (Some ''y'')"
    "parentOf cyclicAncestorsStore ''y'' = Some (Some ''x'')"
    by code_simp+
  then show ?case using above by auto
qed

text \<open>C4 as stated fails: under a new parent whose own parent chain is a cycle, the walk
  never leaves, and the move gives no error although a category of the same name up to
  case is already there.\<close>

theorem move_below_cycle_never_returns:
  "findCategoryById cyclicAncestorsStore ''b'' = Some (mkCategory ''b'' ''Brake Pads'' None True) \<and>
   findCategoryById cyclicAncestorsStore ''z'' = Some (mkCategory ''z'' ''brake pads'' (Some ''x'') True) \<and>
   toLowerCase ''brake pads'' = toLowerCase ''Brake Pads'' \<and>
   parentOf cyclicAncestorsStore ''x'' = Some (Some ''y'') \<and>
   parentOf cyclicAncestorsStore ''y'' = Some (Some ''x'') \<and>
   moveCategory plainNames CountingModel cyclicAncestorsStore ''b'' (Text ''x'') = None \<and>
   moveCategory plainNames BasicModel cyclicAncestorsStore ''b'' (Text ''x'') = None"
proof -
  have facts: "findCategoryById cyclicAncestorsStore ''b'' = Some (mkCategory ''b'' ''Brake Pads'' None True)"
    "findCategoryById cyclicAncestorsStore ''z'' = Some (mkCategory ''z'' ''brake pads'' (Some ''x'') True)"
    "toLowerCase ''brake pads'' = toLowerCase ''Brake Pads''"
    "parentOf cyclicAncestorsStore ''x'' = Some (Some ''y'')"
    "parentOf cyclicAncestorsStore ''y'' = Some (Some ''x'')"
    by code_simp+
  have target: "findCategoryById cyclicAncestorsStore ''x'' \<noteq> None" by code_simp
  have "\<not> walkMeets cyclicAncestorsStore ''b'' ''x''"
    using cyclic_ancestors_never_meet [of cyclicAncestorsStore "''b''" "''x''"] by auto
  moreover have "\<not> chainEnds (\<lambda>i. True) (parentOf cyclicAncestorsStore) ''x''"
    using cyclic_ancestors_never_end [of "\<lambda>i. True" "parentOf cyclicAncestorsStore" "''x''"] by auto
  ultimately have walk: "ancestorWalk plainNames cyclicAncestorsStore ''b'' (Stored ''x'') = None"
    by (rule walk_never_leaves)
  have spelled: "ObjectId_cast plainNames ''b'' = Some ''b''" "ObjectId_cast plainNames ''x'' = Some ''x''"
    "ObjectId_isValid plainNames ''b''" "ObjectId_isValid plainNames ''x''"
    by (simp_all add: plainNames_def)
  have "moveCategory plainNames m cyclicAncestorsStore ''b'' (Text ''x'') = None" for m
    using moveCategory_spelled [OF spelled(1,2) _ spelled(3) facts(1), of m] target walk spelled(4)
    by simp
  then show ?thesis using facts by simp
qed

text \<open>The guards compare the request strings. A request that spells the id of the category
  itself in another way passes them, and the category becomes its own parent.\<close>

lemma move_with_another_spelling:
  "ObjectId_cast hexIds ''5F1A'' = Some ''5f1a'' \<and>
   moveCategory hexIds BasicModel letterStore ''5f1a'' (Text ''5f1a'') = Some (Inl SelfParent) \<and>
   moveCategory hexIds BasicModel letterStore ''5f1a'' (Text ''5F1A'') = Some (Inr ownParentStore) \<and>
   moveCategory hexIds BasicModel letterStore ''5F1A'' (Text ''5f1a'') = Some (Inr ownParentStore) \<and>
   parentOf ownParentStore ''5f1a'' = Some (Some ''5f1a'')"
  by code_simp

text \<open>A request without \<open>newParentId\<close> is refused; \<open>null\<close> and the empty string move the
  category to the root.\<close>

lemma move_without_new_parent:
  "moveCategory anyId BasicModel smallStore ''b'' Undefined = Some (Inl InvalidId) \<and>
   moveCategory anyId BasicModel smallStore ''b'' Null =
     Some (Inr (smallStore\<lparr>cats := [mkCategory ''a'' ''Engine Parts'' None True,
                                     mkCategory ''b'' ''Pistons'' None True]\<rparr>)) \<and>
   moveCategory anyId BasicModel smallStore ''b'' (Text []) =
     Some (Inr (smallStore\<lparr>cats := [mkCategory ''a'' ''Engine Parts'' None True,
                                     mkCategory ''b'' ''Pistons'' None True]\<rparr>))"
  by code_simp

section \<open>Moving a category: the effect\<close>

lemma activeBelow_trans:
  assumes "activeBelow s a b"
  shows "activeBelow s b c \<Longrightarrow> activeBelow s a c"
  using assms
proof (induction)
  case (child x i)
  then show ?case by (auto intro: activeBelow.deeper)
next
  case (deeper x i d)
  then show ?case by (auto intro: activeBelow.deeper)
qed

lemma walkEnds_not_below_itself:
  assumes "walkEnds s i"
  shows "\<not> activeBelow s i i"
  using assms
proof (induction)
  case (all i)
  show ?case
  proof
    assume "activeBelow s i i"
    then show False
    proof (cases rule: activeBelow.cases)
      case (child c)
      then show ?thesis using all.IH [of c] \<open>activeBelow s i i\<close> by simp
    next
      case (deeper c)
      have "activeBelow s i (c_id c)" using deeper(1) by (rule activeBelow.child)
      with deeper(2) have "activeBelow s (c_id c) (c_id c)" by (rule activeBelow_trans)
      then show ?thesis using all.IH [OF deeper(1)] by simp
    qed
  qed
qed

lemma find_distinct:
  "c \<in> set cs \<Longrightarrow> distinct (map c_id cs) \<Longrightarrow> find (\<lambda>x. c_id x = c_id c) cs = Some c"
proof (induction cs)
  case Nil
  then show ?case by simp
next
  case (Cons x cs)
  show ?case
  proof (cases "x = c")
    case True
    then show ?thesis by simp
  next
    case False
    then have "c \<in> set cs" using Cons.prems by simp
    then have "c_id c \<in> set (map c_id cs)" by simp
    then have "c_id x \<noteq> c_id c" using Cons.prems(2) by auto
    then show ?thesis using Cons \<open>c \<in> set cs\<close> by simp
  qed
qed

lemma walkMeets_extend:
  assumes "walkMeets s j d"
  shows "parentOf s j = Some (Some i) \<Longrightarrow> i \<noteq> [] \<Longrightarrow> walkMeets s i d"
  using assms
proof (induction)
  case (here cur)
  have "walkMeets s i i" using here(4) by (simp add: walkMeets.here)
  then show ?case using here by (auto intro: walkMeets.above)
next
  case (above cur nxt)
  then show ?case by (auto intro: walkMeets.above)
qed

lemma activeBelow_walkMeets:
  assumes "activeBelow s i d"
  shows "distinct (map c_id (cats s)) \<Longrightarrow> [] \<notin> set (map c_id (cats s)) \<Longrightarrow> i \<noteq> [] \<Longrightarrow>
         walkMeets s i d"
  using assms
proof (induction)
  case (child c i)
  then have c: "c \<in> set (cats s)" "c_parentCategory c = Some i"
    by (auto simp: activeChildren_def)
  then have "findCategoryById s (c_id c) = Some c"
    using child.prems(1) by (simp add: findCategoryById_def find_distinct)
  then have up: "parentOf s (c_id c) = Some (Some i)" using c by (simp add: parentOf_def)
  have ne: "c_id c \<noteq> []" using c(1) child.prems(2) by (metis image_eqI list.set_map)
  have "walkMeets s i i" using child.prems(3) by (simp add: walkMeets.here)
  with ne up show ?case by (rule walkMeets.above)
next
  case (deeper c i d)
  then have c: "c \<in> set (cats s)" "c_parentCategory c = Some i"
    by (auto simp: activeChildren_def)
  then have "findCategoryById s (c_id c) = Some c"
    using deeper.prems(1) by (simp add: findCategoryById_def find_distinct)
  then have up: "parentOf s (c_id c) = Some (Some i)" using c by (simp add: parentOf_def)
  have ne: "c_id c \<noteq> []" using c(1) deeper.prems(2) by (metis image_eqI list.set_map)
  have "walkMeets s (c_id c) d" using deeper.IH deeper.prems ne by simp
  then show ?case using up deeper.prems(3) by (rule walkMeets_extend)
qed

text \<open>The walk from an id returns the same on a store where the active children of every
  category that it reaches are the same.\<close>

lemma descend_transfer_reached:
  "descend s w = Some y \<Longrightarrow>
   (\<And>j. j \<in> (case w of Visit i \<Rightarrow> insert i {d. activeBelow s i d}
                | Loop children allIds \<Rightarrow> (\<Union>ch\<in>set children. insert ch {d. activeBelow s ch d})) \<Longrightarrow>
         map c_id (activeChildren s' j) = map c_id (activeChildren s j)) \<Longrightarrow>
   descend s' w = Some y"
proof (induction s w y rule: descend.raw_induct [rotated 1, consumes 1, case_names step])
  case (step descend0 s w y)
  show ?case
  proof (cases w)
    case (Visit i)
    then have run: "descend0 s (Loop (map c_id (activeChildren s i)) [i]) = Some y"
      using step(2) by simp
    have same: "map c_id (activeChildren s' j) = map c_id (activeChildren s j)"
      if "j \<in> insert i {d. activeBelow s i d}" for j
      using step(3) [of j] that Visit by simp
    have "descend s' (Loop (map c_id (activeChildren s i)) [i]) = Some y"
    proof (rule step(1) [OF run])
      fix j
      assume "j \<in> (case Loop (map c_id (activeChildren s i)) [i] of
                    Visit i \<Rightarrow> insert i {d. activeBelow s i d}
                  | Loop children allIds \<Rightarrow> (\<Union>ch\<in>set children. insert ch {d. activeBelow s ch d}))"
      then have "j \<in> {d. activeBelow s i d}" using activeBelow_step [of s i] by simp
      then show "map c_id (activeChildren s' j) = map c_id (activeChildren s j)"
        using same by simp
    qed
    then show ?thesis using Visit same [of i] by (subst descend.simps) simp
  next
    case (Loop children allIds)
    show ?thesis
    proof (cases children)
      case Nil
      then show ?thesis using Loop step(2) by (subst descend.simps) simp
    next
      case (Cons child rest)
      then obtain childIds where c: "descend0 s (Visit child) = Some childIds"
        "descend0 s (Loop rest (allIds @ childIds)) = Some y"
        using Loop step(2) by (auto simp: bind_eq_Some_conv)
      have same: "map c_id (activeChildren s' j) = map c_id (activeChildren s j)"
        if "j \<in> (\<Union>ch\<in>set (child # rest). insert ch {d. activeBelow s ch d})" for j
        using step(3) [of j] that Loop Cons by simp
      have one: "descend s' (Visit child) = Some childIds"
      proof (rule step(1) [OF c(1)])
        fix j
        assume "j \<in> (case Visit child of
                    Visit i \<Rightarrow> insert i {d. activeBelow s i d}
                  | Loop children allIds \<Rightarrow> (\<Union>ch\<in>set children. insert ch {d. activeBelow s ch d}))"
        then have "j \<in> (\<Union>ch\<in>set (child # rest). insert ch {d. activeBelow s ch d})" by auto
        then show "map c_id (activeChildren s' j) = map c_id (activeChildren s j)" by (rule same)
      qed
      have two: "descend s' (Loop rest (allIds @ childIds)) = Some y"
      proof (rule step(1) [OF c(2)])
        fix j
        assume "j \<in> (case Loop rest (allIds @ childIds) of
                    Visit i \<Rightarrow> insert i {d. activeBelow s i d}
                  | Loop children allIds \<Rightarrow> (\<Union>ch\<in>set children. insert ch {d. activeBelow s ch d}))"
        then have "j \<in> (\<Union>ch\<in>set (child # rest). insert ch {d. activeBelow s ch d})" by auto
        then show "map c_id (activeChildren s' j) = map c_id (activeChildren s j)" by (rule same)
      qed
      show ?thesis using Loop Cons one two by (subst descend.simps) simp
    qed
  qed
qed


lemma filter_updateFirst:
  "find P cs = Some x \<Longrightarrow> Q (f x) = Q x \<Longrightarrow> (Q x \<Longrightarrow> g (f x) = g x) \<Longrightarrow>
   map g (filter Q (updateFirst P f cs)) = map g (filter Q cs)"
  by (induction cs) (auto split: if_splits)

lemma find_replaced:
  "find (\<lambda>c. c_id c = i) cs = Some old \<Longrightarrow> c_id doc = i \<Longrightarrow>
   find (\<lambda>c. c_id c = j) (updateFirst (\<lambda>c. c_id c = i) (\<lambda>_. doc) cs) =
   (if j = i then Some doc else find (\<lambda>c. c_id c = j) cs)"
  by (induction cs) (auto split: if_splits)

lemma findCategoryById_write:
  "findCategoryById s (c_id doc) = Some old \<Longrightarrow>
   findCategoryById (writeCategory doc s) j =
   (if j = c_id doc then Some doc else findCategoryById s j)"
  by (simp add: findCategoryById_def writeCategory_def find_replaced)

lemma activeChildren_write:
  assumes "findCategoryById s (c_id doc) = Some old"
    and "(c_parentCategory doc = Some j \<and> c_isActive doc) =
         (c_parentCategory old = Some j \<and> c_isActive old)"
  shows "map c_id (activeChildren (writeCategory doc s) j) = map c_id (activeChildren s j)"
proof -
  have same: "c_id old = c_id doc" using assms(1) by (rule findCategoryById_id)
  have "map c_id (filter (\<lambda>c. c_parentCategory c = Some j \<and> c_isActive c)
          (updateFirst (\<lambda>c. c_id c = c_id doc) (\<lambda>_. doc) (cats s))) =
        map c_id (filter (\<lambda>c. c_parentCategory c = Some j \<and> c_isActive c) (cats s))"
    using assms same by (intro filter_updateFirst [where x = old]) (auto simp: findCategoryById_def)
  then show ?thesis using assms(1) by (simp add: activeChildren_def writeCategory_def)
qed

lemma prods_write [simp]: "prods (writeCategory doc s) = prods s"
  by (simp add: writeCategory_def split: option.splits)

lemma updateProductCount_others:
  "updateProductCount env s p = Some s' \<Longrightarrow> j \<noteq> p \<Longrightarrow>
   findCategoryById s' j = findCategoryById s j"
  by (auto simp: updateProductCount_def findCategoryById_update split: if_splits option.splits)

lemma move_succeeded:
  assumes moved: "moveCategory env m s i (Text p) = Some (Inr s')"
    and cast: "ObjectId_cast env i = Some i'" "ObjectId_cast env p = Some p'"
    and found: "findCategoryById s i' = Some category"
    and ne: "p \<noteq> []"
  shows "p \<noteq> i \<and> ObjectId_isValid env i \<and> ObjectId_isValid env p \<and>
         findCategoryById s p' \<noteq> None \<and>
         ancestorWalk env s i (Requested p) = Some (Inr False) \<and>
         postSave env m
           (writeCategory (preSaveSlug False (category\<lparr>c_parentCategory := Some p'\<rparr>)) s)
           (preSaveSlug False (category\<lparr>c_parentCategory := Some p'\<rparr>)) = Some s'"
proof -
  have guards: "ObjectId_isValid env i" "ObjectId_isValid env p" "findCategoryById s p' \<noteq> None"
    "p \<noteq> i"
    using moved cast found ne by (auto simp: moveCategory_def split: if_splits)
  have walk: "ancestorWalk env s i (Requested p) = Some (Inr False)"
    using moved cast found ne guards
    by (auto simp: moveCategory_def split: if_splits option.splits sum.splits bool.splits)
  have "serverErrorOf (saveCategory env m s (category\<lparr>c_parentCategory := Some p'\<rparr>)) = Some (Inr s')"
    using moved cast found ne guards walk
    by (auto simp: moveCategory_def split: if_splits option.splits)
  then have save: "saveCategory env m s (category\<lparr>c_parentCategory := Some p'\<rparr>) = Some (Inr s')"
    by (auto simp: serverErrorOf_def split: option.splits sum.splits)
  have "c_id category = i'" using found by (rule findCategoryById_id)
  then have unmodified: "findCategoryById s (c_id (category\<lparr>c_parentCategory := Some p'\<rparr>)) = Some category"
    using found by simp
  from save unmodified
  have "postSave env m
           (writeCategory (preSaveSlug False (category\<lparr>c_parentCategory := Some p'\<rparr>)) s)
           (preSaveSlug False (category\<lparr>c_parentCategory := Some p'\<rparr>)) = Some s'"
    by (auto simp: saveCategory_def Let_def split: if_splits)
  then show ?thesis using guards walk by simp
qed

lemma preSaveSlug_fields [simp]:
  "c_id (preSaveSlug b c) = c_id c" "c_parentCategory (preSaveSlug b c) = c_parentCategory c"
  "c_isActive (preSaveSlug b c) = c_isActive c"
  by (simp_all add: preSaveSlug_def)

lemma found_in_store: "findCategoryById s i = Some c \<Longrightarrow> c \<in> set (cats s) \<and> c_id c = i"
  by (auto simp: findCategoryById_def find_Some_iff)

lemma children_after_move:
  assumes found: "findCategoryById s i = Some category"
    and walk: "\<not> walkMeets s i p" and apart: "p \<noteq> i"
    and ids: "distinct (map c_id (cats s))" "[] \<notin> set (map c_id (cats s))"
    and ends: "walkEnds s i"
    and reached: "j \<in> insert i {d. activeBelow s i d}"
  shows "map c_id (activeChildren
           (writeCategory (preSaveSlug False (category\<lparr>c_parentCategory := Some p\<rparr>)) s) j) =
         map c_id (activeChildren s j)"
proof -
  let ?doc = "preSaveSlug False (category\<lparr>c_parentCategory := Some p\<rparr>)"
  from found_in_store [OF found] have mem: "category \<in> set (cats s)" and cid: "c_id category = i"
    by auto
  have i: "i \<noteq> []" using mem cid ids(2) by (metis image_eqI list.set_map)
  have old: "findCategoryById s (c_id ?doc) = Some category" using found cid by simp
  have "(c_parentCategory ?doc = Some j \<and> c_isActive ?doc) =
        (c_parentCategory category = Some j \<and> c_isActive category)"
  proof (cases "c_isActive category")
    case False
    then show ?thesis by simp
  next
    case True
    have "p \<noteq> j"
    proof
      assume "p = j"
      then have "activeBelow s i p" using reached apart by auto
      then have "walkMeets s i p" using ids i by (rule activeBelow_walkMeets)
      then show False using walk by simp
    qed
    moreover have "c_parentCategory category \<noteq> Some j"
    proof
      assume "c_parentCategory category = Some j"
      then have "category \<in> set (activeChildren s j)"
        using mem True by (simp add: activeChildren_def)
      then have below: "activeBelow s j i" using cid activeBelow.child by fastforce
      have "activeBelow s i i"
      proof (cases "j = i")
        case True
        then show ?thesis using below by simp
      next
        case False
        then have "activeBelow s i j" using reached by simp
        then show ?thesis using below by (rule activeBelow_trans)
      qed
      then show False using walkEnds_not_below_itself [OF ends] by simp
    qed
    ultimately show ?thesis by auto
  qed
  with old show ?thesis by (rule activeChildren_write)
qed

lemma subtree_count_after_write:
  assumes found: "findCategoryById s i = Some category"
    and walk: "\<not> walkMeets s i p" and apart: "p \<noteq> i"
    and ids: "distinct (map c_id (cats s))" "[] \<notin> set (map c_id (cats s))"
    and before: "calculateProductCount s i True = Some n"
  shows "calculateProductCount
           (writeCategory (preSaveSlug False (category\<lparr>c_parentCategory := Some p\<rparr>)) s) i True =
         Some n"
proof -
  let ?s1 = "writeCategory (preSaveSlug False (category\<lparr>c_parentCategory := Some p\<rparr>)) s"
  from before obtain allIds where run: "descend s (Visit i) = Some allIds"
    and n: "n = countByCategoryIn s allIds"
    by (auto simp: calculateProductCount_def getAllDescendantIds_def)
  from descend_walkEnds [OF run] have ends: "walkEnds s i" by simp
  have "descend ?s1 (Visit i) = Some allIds"
  proof (rule descend_transfer_reached [OF run])
    fix j
    assume "j \<in> (case Visit i of Visit i \<Rightarrow> insert i {d. activeBelow s i d}
                 | Loop children allIds \<Rightarrow> (\<Union>ch\<in>set children. insert ch {d. activeBelow s ch d}))"
    then have "j \<in> insert i {d. activeBelow s i d}" by simp
    then show "map c_id (activeChildren ?s1 j) = map c_id (activeChildren s j)"
      by (rule children_after_move [OF found walk apart ids ends])
  qed
  moreover have "countByCategoryIn ?s1 allIds = countByCategoryIn s allIds"
    by (simp add: countByCategoryIn_def)
  ultimately show ?thesis using n
    by (simp add: calculateProductCount_def getAllDescendantIds_def)
qed


lemma postSave_result:
  assumes run: "postSave env m s1 doc = Some s'"
  shows "prods s' = prods s1 \<and> map eraseCounts (cats s') = map eraseCounts (cats s1) \<and>
         (m = BasicModel \<longrightarrow> s' = s1) \<and>
         (\<forall>j. j \<noteq> c_id doc \<and> c_parentCategory doc \<noteq> Some j \<longrightarrow>
              findCategoryById s' j = findCategoryById s1 j) \<and>
         (m = CountingModel \<and> c_id doc \<noteq> [] \<and> ObjectId_isValid env (c_id doc) \<longrightarrow>
            (\<forall>c. findCategoryById s' (c_id doc) = Some c \<longrightarrow>
               Some (c_productCountReal c) = calculateProductCount s' (c_id doc) False \<and>
               Some (c_totalProductCount c) = calculateProductCount s' (c_id doc) True)) \<and>
         (\<forall>p. m = CountingModel \<and> c_parentCategory doc = Some p \<and> p \<noteq> [] \<and>
              ObjectId_isValid env p \<and> p \<noteq> c_id doc \<longrightarrow>
            (\<forall>c. findCategoryById s' p = Some c \<longrightarrow>
               Some (c_productCountReal c) = calculateProductCount s' p False \<and>
               Some (c_totalProductCount c) = calculateProductCount s' p True))"
proof (cases m)
  case BasicModel
  then have "s' = s1" using run by (simp add: postSave_def)
  then show ?thesis using BasicModel by simp
next
  case CountingModel
  show ?thesis
  proof (cases "c_parentCategory doc")
    case None
    then have self: "updateProductCount env s1 (c_id doc) = Some s'"
      using run CountingModel by (simp add: postSave_def)
    from updateProductCount_result [OF self] updateProductCount_others [OF self]
    show ?thesis using None CountingModel by auto
  next
    case (Some p)
    then obtain s2 where first: "updateProductCount env s1 p = Some s2"
      and second: "updateProductCount env s2 (c_id doc) = Some s'"
      using run CountingModel by (auto simp: postSave_def bind_eq_Some_conv)
    from updateProductCount_result [OF first]
    have r1: "prods s2 = prods s1" "map eraseCounts (cats s2) = map eraseCounts (cats s1)"
      "p \<noteq> [] \<and> ObjectId_isValid env p \<longrightarrow>
        (\<forall>c. findCategoryById s2 p = Some c \<longrightarrow>
           Some (c_productCountReal c) = calculateProductCount s2 p False \<and>
           Some (c_totalProductCount c) = calculateProductCount s2 p True)"
      by blast+
    from updateProductCount_result [OF second]
    have r2: "prods s' = prods s2" "map eraseCounts (cats s') = map eraseCounts (cats s2)"
      "c_id doc \<noteq> [] \<and> ObjectId_isValid env (c_id doc) \<longrightarrow>
        (\<forall>c. findCategoryById s' (c_id doc) = Some c \<longrightarrow>
           Some (c_productCountReal c) = calculateProductCount s' (c_id doc) False \<and>
           Some (c_totalProductCount c) = calculateProductCount s' (c_id doc) True)"
      by blast+
    have same: "calculateProductCount s' j b = calculateProductCount s2 j b" for j b
      using r2(2) r2(1) by (rule calculateProductCount_erased)
    have others: "j \<noteq> c_id doc \<Longrightarrow> findCategoryById s' j = findCategoryById s2 j" for j
      using updateProductCount_others [OF second] by simp
    have others1: "j \<noteq> p \<Longrightarrow> findCategoryById s2 j = findCategoryById s1 j" for j
      using updateProductCount_others [OF first] by simp
    have parent: "p \<noteq> [] \<and> ObjectId_isValid env p \<and> p \<noteq> c_id doc \<longrightarrow>
        (\<forall>c. findCategoryById s' p = Some c \<longrightarrow>
           Some (c_productCountReal c) = calculateProductCount s' p False \<and>
           Some (c_totalProductCount c) = calculateProductCount s' p True)"
      using r1(3) others [of p] same by simp
    have frame: "prods s' = prods s1" "map eraseCounts (cats s') = map eraseCounts (cats s1)"
      using r1(1,2) r2(1,2) by simp_all
    have untouched: "\<forall>j. j \<noteq> c_id doc \<and> c_parentCategory doc \<noteq> Some j \<longrightarrow>
              findCategoryById s' j = findCategoryById s1 j"
    proof (intro allI impI)
      fix j
      assume j: "j \<noteq> c_id doc \<and> c_parentCategory doc \<noteq> Some j"
      then have "j \<noteq> p" using Some by auto
      then show "findCategoryById s' j = findCategoryById s1 j"
        using others [of j] others1 [of j] j by simp
    qed
    show ?thesis using frame untouched r2(3) parent Some CountingModel by simp
  qed
qed

lemma erased_parent:
  "eraseCounts a = eraseCounts b \<Longrightarrow> c_parentCategory a = c_parentCategory b"
proof -
  assume "eraseCounts a = eraseCounts b"
  then have "c_parentCategory (eraseCounts a) = c_parentCategory (eraseCounts b)" by simp
  then show ?thesis by (simp add: eraseCounts_def)
qed

text \<open>
  C5, as the code has it, for a successful move of a category to a new parent, in a
  store whose ids are distinct; \<open>i'\<close> and \<open>p'\<close> are the ObjectIds that the two request
  strings cast to. The category is stored with the new parent. With the counting model
  the stored counts of the category and of the new parent are the freshly computed ones;
  every other document, the old parent among them, is as it was before (with the basic
  model every document but the moved one is). No product is written, so the direct
  counts of the category are the same; and for a request that spells both ids as the
  ObjectIds they cast to, so is its subtree count.
\<close>

theorem move_persists_and_recounts:
  assumes moved: "moveCategory env m s i (Text p) = Some (Inr s')"
    and cast: "ObjectId_cast env i = Some i'" "ObjectId_cast env p = Some p'"
    and found: "findCategoryById s i' = Some category"
    and target: "p \<noteq> []"
    and ids: "distinct (map c_id (cats s))" "[] \<notin> set (map c_id (cats s))"
  shows "ObjectId_isValid env i \<and> ObjectId_isValid env p \<and>
         (\<exists>c. findCategoryById s' i' = Some c \<and> c_parentCategory c = Some p' \<and>
              (m = CountingModel \<and> ObjectId_isValid env i' \<longrightarrow>
                 Some (c_productCountReal c) = calculateProductCount s' i' False \<and>
                 Some (c_totalProductCount c) = calculateProductCount s' i' True)) \<and>
         (m = CountingModel \<and> ObjectId_isValid env p' \<longrightarrow>
            (\<forall>c. findCategoryById s' p' = Some c \<longrightarrow>
               Some (c_productCountReal c) = calculateProductCount s' p' False \<and>
               Some (c_totalProductCount c) = calculateProductCount s' p' True)) \<and>
         (\<forall>j. j \<noteq> i' \<and> j \<noteq> p' \<longrightarrow> findCategoryById s' j = findCategoryById s j) \<and>
         (m = BasicModel \<longrightarrow> (\<forall>j. j \<noteq> i' \<longrightarrow> findCategoryById s' j = findCategoryById s j)) \<and>
         prods s' = prods s \<and>
         countByCategory s' i' = countByCategory s i' \<and>
         countByCategories s' i' = countByCategories s i' \<and>
         (i' = i \<and> p' = p \<longrightarrow>
            (\<forall>n. calculateProductCount s i True = Some n \<longrightarrow>
                 calculateProductCount s' i True = Some n))"
proof -
  let ?doc = "preSaveSlug False (category\<lparr>c_parentCategory := Some p'\<rparr>)"
  let ?s1 = "writeCategory ?doc s"
  from move_succeeded [OF moved cast found target]
  have apart: "p \<noteq> i" and valid: "ObjectId_isValid env i" "ObjectId_isValid env p"
    and there: "findCategoryById s p' \<noteq> None"
    and walk: "ancestorWalk env s i (Requested p) = Some (Inr False)"
    and hooks: "postSave env m ?s1 ?doc = Some s'"
    by auto
  from found_in_store [OF found] have mem: "category \<in> set (cats s)" and cid: "c_id category = i'"
    by auto
  have i: "i' \<noteq> []" using mem cid ids(2) by (metis image_eqI list.set_map)
  from there obtain parent where "findCategoryById s p' = Some parent" by auto
  from found_in_store [OF this] have "parent \<in> set (cats s)" "c_id parent = p'" by auto
  then have p: "p' \<noteq> []" using ids(2) by (metis image_eqI list.set_map)
  have doc: "c_id ?doc = i'" "c_parentCategory ?doc = Some p'" using cid by simp_all
  have old: "findCategoryById s (c_id ?doc) = Some category" using found doc(1) by simp
  have written: "findCategoryById ?s1 j = (if j = i' then Some ?doc else findCategoryById s j)" for j
    using findCategoryById_write [OF old, of j] doc(1) by simp
  note result = postSave_result [OF hooks]
  have frame: "prods s' = prods ?s1" "map eraseCounts (cats s') = map eraseCounts (cats ?s1)"
    and basic: "m = BasicModel \<longrightarrow> s' = ?s1"
    and untouched: "\<forall>j. j \<noteq> c_id ?doc \<and> c_parentCategory ?doc \<noteq> Some j \<longrightarrow>
              findCategoryById s' j = findCategoryById ?s1 j"
    and self: "m = CountingModel \<and> c_id ?doc \<noteq> [] \<and> ObjectId_isValid env (c_id ?doc) \<longrightarrow>
            (\<forall>c. findCategoryById s' (c_id ?doc) = Some c \<longrightarrow>
               Some (c_productCountReal c) = calculateProductCount s' (c_id ?doc) False \<and>
               Some (c_totalProductCount c) = calculateProductCount s' (c_id ?doc) True)"
    and parent: "\<forall>q. m = CountingModel \<and> c_parentCategory ?doc = Some q \<and> q \<noteq> [] \<and>
              ObjectId_isValid env q \<and> q \<noteq> c_id ?doc \<longrightarrow>
            (\<forall>c. findCategoryById s' q = Some c \<longrightarrow>
               Some (c_productCountReal c) = calculateProductCount s' q False \<and>
               Some (c_totalProductCount c) = calculateProductCount s' q True)"
    using result by simp_all
  have prods: "prods s' = prods s" using frame(1) by simp
  have "map_option eraseCounts (findCategoryById s' i') = map_option eraseCounts (findCategoryById ?s1 i')"
    using erased_find [OF frame(2), of i'] by (simp add: findCategoryById_def)
  then obtain c where c: "findCategoryById s' i' = Some c" "eraseCounts c = eraseCounts ?doc"
    using written [of i'] by auto
  then have cp: "c_parentCategory c = Some p'" using erased_parent [of c ?doc] doc(2) by simp
  have first: "\<exists>c. findCategoryById s' i' = Some c \<and> c_parentCategory c = Some p' \<and>
              (m = CountingModel \<and> ObjectId_isValid env i' \<longrightarrow>
                 Some (c_productCountReal c) = calculateProductCount s' i' False \<and>
                 Some (c_totalProductCount c) = calculateProductCount s' i' True)"
    using c(1) cp self doc(1) i by auto
  have second: "m = CountingModel \<and> ObjectId_isValid env p' \<longrightarrow>
            (\<forall>c. findCategoryById s' p' = Some c \<longrightarrow>
               Some (c_productCountReal c) = calculateProductCount s' p' False \<and>
               Some (c_totalProductCount c) = calculateProductCount s' p' True)"
  proof (cases "p' = i'")
    case True
    then show ?thesis using self doc(1) i by auto
  next
    case False
    then show ?thesis using parent doc p by auto
  qed
  have third: "\<forall>j. j \<noteq> i' \<and> j \<noteq> p' \<longrightarrow> findCategoryById s' j = findCategoryById s j"
    using untouched doc written by auto
  have fourth: "m = BasicModel \<longrightarrow> (\<forall>j. j \<noteq> i' \<longrightarrow> findCategoryById s' j = findCategoryById s j)"
    using basic written by auto
  have counts: "countByCategory s' i' = countByCategory s i'"
    "countByCategories s' i' = countByCategories s i'"
    using prods by (simp_all add: countByCategory_def countByCategories_def)
  have fifth: "i' = i \<and> p' = p \<longrightarrow>
            (\<forall>n. calculateProductCount s i True = Some n \<longrightarrow>
                 calculateProductCount s' i True = Some n)"
  proof (intro allI impI)
    fix n
    assume same: "i' = i \<and> p' = p" and before: "calculateProductCount s i True = Some n"
    have "ancestorWalk env s i (Stored p) = Some (Inr False)"
      using walk cast(2) same walk_requested [of env p s i] by simp
    then have away: "\<not> walkMeets s i p"
      using walkMeets_returns_true [of s i p env] by auto
    have f: "findCategoryById s i = Some category" using found same by simp
    from subtree_count_after_write [OF f away apart ids before]
    have "calculateProductCount (writeCategory (preSaveSlug False (category\<lparr>c_parentCategory := Some p\<rparr>)) s) i True = Some n" .
    then have "calculateProductCount ?s1 i True = Some n" using same by simp
    then show "calculateProductCount s' i True = Some n"
      using calculateProductCount_erased [OF frame(2) frame(1), of i True] by simp
  qed
  show ?thesis
    using valid first second third fourth prods counts fifth by (intro conjI)
qed

theorem move_persists_and_recounts_witness:
  "moveCategory plainNames CountingModel countedStore ''b'' (Text ''d'') = Some (Inr movedStore) \<and>
   ObjectId_cast plainNames ''b'' = Some ''b'' \<and> ObjectId_cast plainNames ''d'' = Some ''d'' \<and>
   findCategoryById countedStore ''b'' =
     Some ((mkCategory ''b'' ''Pistons'' (Some ''a'') True)
             \<lparr>c_productCountReal := 1, c_totalProductCount := 1\<rparr>) \<and>
   distinct (map c_id (cats countedStore)) \<and>
   (\<exists>c. findCategoryById movedStore ''b'' = Some c \<and> c_parentCategory c = Some ''d'' \<and>
        Some (c_productCountReal c) = calculateProductCount movedStore ''b'' False \<and>
        Some (c_totalProductCount c) = calculateProductCount movedStore ''b'' True) \<and>
   (\<exists>c. findCategoryById movedStore ''d'' = Some c \<and>
        Some (c_productCountReal c) = calculateProductCount movedStore ''d'' False \<and>
        Some (c_totalProductCount c) = calculateProductCount movedStore ''d'' True) \<and>
   findCategoryById movedStore ''a'' = findCategoryById countedStore ''a'' \<and>
   prods movedStore = prods countedStore \<and>
   countByCategory movedStore ''b'' = countByCategory countedStore ''b'' \<and>
   countByCategories movedStore ''b'' = countByCategories countedStore ''b'' \<and>
   calculateProductCount countedStore ''b'' True = Some 1 \<and>
   calculateProductCount movedStore ''b'' True = Some 1"
proof -
  have moved: "moveCategory plainNames CountingModel countedStore ''b'' (Text ''d'') =
      Some (Inr movedStore)"
    by code_simp
  have found: "findCategoryById countedStore ''b'' =
     Some ((mkCategory ''b'' ''Pistons'' (Some ''a'') True)
             \<lparr>c_productCountReal := 1, c_totalProductCount := 1\<rparr>)"
    by code_simp
  have target: "''d'' \<noteq> []" by simp
  have ids: "distinct (map c_id (cats countedStore))" "[] \<notin> set (map c_id (cats countedStore))"
    by code_simp+
  have before: "calculateProductCount countedStore ''b'' True = Some 1" by code_simp
  have there: "findCategoryById movedStore ''d'' \<noteq> None" by code_simp
  have cast: "ObjectId_cast plainNames ''b'' = Some ''b''" "ObjectId_cast plainNames ''d'' = Some ''d''"
    by (simp_all add: plainNames_def)
  have valid: "ObjectId_isValid plainNames ''b''" "ObjectId_isValid plainNames ''d''"
    by (simp_all add: plainNames_def)
  note result = move_persists_and_recounts [OF moved cast found target ids]
  have self: "\<exists>c. findCategoryById movedStore ''b'' = Some c \<and> c_parentCategory c = Some ''d'' \<and>
        Some (c_productCountReal c) = calculateProductCount movedStore ''b'' False \<and>
        Some (c_totalProductCount c) = calculateProductCount movedStore ''b'' True"
    using result valid by simp
  have parent: "\<exists>c. findCategoryById movedStore ''d'' = Some c \<and>
        Some (c_productCountReal c) = calculateProductCount movedStore ''d'' False \<and>
        Some (c_totalProductCount c) = calculateProductCount movedStore ''d'' True"
    using result there valid by auto
  have old: "findCategoryById movedStore ''a'' = findCategoryById countedStore ''a''"
    using result by simp
  have frame: "prods movedStore = prods countedStore"
    "countByCategory movedStore ''b'' = countByCategory countedStore ''b''"
    "countByCategories movedStore ''b'' = countByCategories countedStore ''b''"
    using result by simp_all
  have after: "calculateProductCount movedStore ''b'' True = Some 1"
    using result before by simp
  from moved cast found ids(1) self parent old frame before after show ?thesis by blast
qed

text \<open>C5 as stated fails: after \<open>b\<close> has moved from \<open>a\<close> to \<open>d\<close>, the subtree of \<open>a\<close> holds
  no product any more, and the document of \<open>a\<close> still has the total 1 it had before;
  with the basic model the new parent is not written either.\<close>

theorem move_leaves_old_parent_stale:
  "moveCategory plainNames CountingModel countedStore ''b'' (Text ''d'') = Some (Inr movedStore) \<and>
   parentOf countedStore ''b'' = Some (Some ''a'') \<and>
   parentOf movedStore ''b'' = Some (Some ''d'') \<and>
   calculateProductCount countedStore ''a'' True = Some 1 \<and>
   calculateProductCount movedStore ''a'' True = Some 0 \<and>
   findCategoryById movedStore ''a'' = findCategoryById countedStore ''a'' \<and>
   map_option c_totalProductCount (findCategoryById movedStore ''a'') = Some 1 \<and>
   moveCategory plainNames BasicModel countedStore ''b'' (Text ''d'') =
     Some (Inr (countedStore\<lparr>cats := [(mkCategory ''a'' ''Engine Parts'' None True)\<lparr>c_totalProductCount := 1\<rparr>,
              (mkCategory ''b'' ''Pistons'' (Some ''d'') True)
                 \<lparr>c_productCountReal := 1, c_totalProductCount := 1\<rparr>,
              mkCategory ''d'' ''Cylinders'' None True]\<rparr>))"
  by code_simp

text \<open>Why the subtree count needs the spelling: moved under another spelling of its own id,
  the category is its own active child, and the walk below it never returns.\<close>

lemma own_parent_descend_never_returns:
  "descend s w = Some y \<Longrightarrow> s = ownParentStore \<Longrightarrow>
   w = Visit ''5f1a'' \<or> (\<exists>rest acc. w = Loop (''5f1a'' # rest) acc) \<Longrightarrow> False"
proof (induction s w y rule: descend.raw_induct [rotated 1, consumes 1, case_names step])
  case (step descend s w y)
  have children: "map c_id (activeChildren ownParentStore ''5f1a'') = [''5f1a'']"
    by code_simp
  from step(4) consider "w = Visit ''5f1a''" | rest acc where "w = Loop (''5f1a'' # rest) acc"
    by blast
  then show ?case
  proof cases
    case 1
    then have "descend s (Loop [''5f1a''] [''5f1a'']) = Some y"
      using step(2,3) children by simp
    then show ?thesis using step(1) step(3) by blast
  next
    case 2
    then obtain ids where "descend s (Visit ''5f1a'') = Some ids"
      using step(2) by (auto simp: bind_eq_Some_conv)
    then show ?thesis using step(1) step(3) by blast
  qed
qed

lemma subtree_count_after_another_spelling:
  "moveCategory hexIds BasicModel letterStore ''5f1a'' (Text ''5F1A'') = Some (Inr ownParentStore) \<and>
   calculateProductCount letterStore ''5f1a'' True = Some 0 \<and>
   calculateProductCount ownParentStore ''5f1a'' True = None"
proof -
  have "getAllDescendantIds ownParentStore ''5f1a'' = None"
    using own_parent_descend_never_returns [of ownParentStore "Visit ''5f1a''"]
    by (cases "getAllDescendantIds ownParentStore ''5f1a''") (auto simp: getAllDescendantIds_def)
  then have "calculateProductCount ownParentStore ''5f1a'' True = None"
    by (simp add: calculateProductCount_def)
  moreover have "moveCategory hexIds BasicModel letterStore ''5f1a'' (Text ''5F1A'') = Some (Inr ownParentStore)"
    "calculateProductCount letterStore ''5f1a'' True = Some 0"
    by code_simp+
  ultimately show ?thesis by simp
qed

end
